theory Spec2Isabelle
  imports Complex_Main "HOL-Library.Word"
begin

section \<open>Data model\<close>

text \<open>
  The order book of \<^verbatim>\<open>include/order.h\<close>, \<^verbatim>\<open>include/price_level.h\<close>,
  \<^verbatim>\<open>include/trade.h\<close> and \<^verbatim>\<open>include/order_book.h\<close>.

  \<^item> \<^verbatim>\<open>std::uint64_t\<close> is \<open>64 word\<close>: \<open>+\<close> and \<open>-\<close> wrap around as they do in C++.
  \<^item> \<^verbatim>\<open>double\<close> prices are only ever compared (\<open><\<close>, \<open>\<le>\<close>, \<open>\<ge>\<close>, and the
    orderings of the two \<^verbatim>\<open>std::map\<close>s); they are modelled as \<open>real\<close>, which covers
    every finite double. NaN and the infinities are outside the model: every theorem
    below is about calls whose prices are numbers. The code itself accepts a NaN price
    (both price tests of \<^verbatim>\<open>add_order\<close> are false of it) and hands it to \<^verbatim>\<open>std::map\<close> as
    a key, where it breaks the strict weak ordering the map requires of its comparison;
    the section on prices that are numbers says which properties that costs.
  \<^item> The timestamps read from the clock are left out: no operation branches on them.
  \<^item> An order is held by \<^verbatim>\<open>std::shared_ptr<Order>\<close> from the price level's queue and
    from the id index at once, and is mutated through either. The model keeps the
    objects in an explicit store \<open>heap\<close> (from addresses to orders); queues and the
    index hold addresses. \<^verbatim>\<open>std::make_shared\<close> takes the next unused address
    \<open>heap_top\<close>. Objects are never freed in the model: an object whose last pointer
    is dropped just stays in the store, unreferenced.
\<close>

type_synonym u64 = "64 word"
type_synonym ref = nat

datatype Side = BUY | SELL

datatype OrderType = MARKET | LIMIT

datatype OrderStatus = NEW | PARTIALLY_FILLED | FILLED | CANCELLED

text \<open>The two exceptions the sources throw: \<^verbatim>\<open>std::invalid_argument\<close> and \<^verbatim>\<open>std::logic_error\<close>.\<close>

datatype error = invalid_argument | logic_error

record Order =
  order_id :: u64
  order_price :: real
  order_quantity :: u64
  filled_qty :: u64
  order_side :: Side
  order_type :: OrderType
  order_status :: OrderStatus

type_synonym heap = "ref \<Rightarrow> Order"

text \<open>A write through a pointer: the object at address \<open>r\<close> becomes \<open>v\<close>.\<close>

definition store :: "heap \<Rightarrow> ref \<Rightarrow> Order \<Rightarrow> heap" where
  "store h r v = h(r := v)"

record PriceLevel =
  level_price :: real
  total_quantity :: u64
  orders :: "ref list"

record Trade =
  trade_id :: u64
  buy_order_id :: u64
  sell_order_id :: u64
  trade_price :: real
  trade_quantity :: u64

section \<open>Order (src/order.cpp)\<close>

text \<open>The constructor throws after the member initialisers have run; the model returns the error.\<close>

definition Order_ctor :: "u64 \<Rightarrow> real \<Rightarrow> u64 \<Rightarrow> Side \<Rightarrow> OrderType \<Rightarrow> error + Order" where
  "Order_ctor oid p qty sd ty =
     (if qty = 0 then Inl invalid_argument
      else if p < 0 then Inl invalid_argument
      else if ty = LIMIT \<and> p \<le> 0 then Inl invalid_argument
      else Inr \<lparr>order_id = oid, order_price = p, order_quantity = qty, filled_qty = 0,
                order_side = sd, order_type = ty, order_status = NEW\<rparr>)"

definition get_remaining_qty :: "Order \<Rightarrow> u64" where
  "get_remaining_qty ord = order_quantity ord - filled_qty ord"

definition fill :: "u64 \<Rightarrow> Order \<Rightarrow> error + Order" where
  "fill qty ord =
     (if qty = 0 then Inr ord
      else if filled_qty ord + qty > order_quantity ord then Inl invalid_argument
      else if order_status ord = CANCELLED \<or> order_status ord = FILLED then Inl logic_error
      else let f = filled_qty ord + qty
           in Inr (ord\<lparr>filled_qty := f,
                        order_status := (if f = order_quantity ord then FILLED
                                         else PARTIALLY_FILLED)\<rparr>))"

definition cancel :: "Order \<Rightarrow> Order" where
  "cancel ord =
     (if order_status ord = NEW \<or> order_status ord = PARTIALLY_FILLED
      then ord\<lparr>order_status := CANCELLED\<rparr> else ord)"

definition is_fully_filled :: "Order \<Rightarrow> bool" where
  "is_fully_filled ord = (filled_qty ord = order_quantity ord)"

section \<open>PriceLevel (src/price_level.cpp)\<close>

text \<open>
  The queue \<^verbatim>\<open>orders_\<close> is a list, front first. \<^verbatim>\<open>PriceLevel::add_order\<close> is the only
  way into the queue and it drops a null pointer, so no queue entry is null:
  entries are plain addresses, and the null tests the sources make on queue entries
  have no counterpart. A possibly null pointer argument or result is a \<open>ref option\<close>.
  Every method that reads \<^verbatim>\<open>order->get_remaining_qty()\<close> takes the store.
\<close>

definition PriceLevel_ctor :: "real \<Rightarrow> PriceLevel" where
  "PriceLevel_ctor p = \<lparr>level_price = p, total_quantity = 0, orders = []\<rparr>"

definition PriceLevel_default :: PriceLevel where
  "PriceLevel_default = \<lparr>level_price = 0, total_quantity = 0, orders = []\<rparr>"

definition level_add_order :: "heap \<Rightarrow> ref option \<Rightarrow> PriceLevel \<Rightarrow> PriceLevel" where
  "level_add_order h ord lvl =
     (case ord of
        None \<Rightarrow> lvl
      | Some r \<Rightarrow> lvl\<lparr>total_quantity := total_quantity lvl + get_remaining_qty (h r),
                       orders := orders lvl @ [r]\<rparr>)"

text \<open>
  The loop of \<^verbatim>\<open>remove_order\<close>: \<open>q\<close> is what is left of \<^verbatim>\<open>orders_\<close>, and the
  accumulator is (\<^verbatim>\<open>total_quantity_\<close>, \<^verbatim>\<open>temp_queue\<close>, \<^verbatim>\<open>found\<close>).
\<close>

fun remove_loop :: "heap \<Rightarrow> u64 \<Rightarrow> ref list \<Rightarrow> u64 \<times> ref list \<times> bool \<Rightarrow> u64 \<times> ref list \<times> bool" where
  "remove_loop h oid [] acc = acc"
| "remove_loop h oid (r # q) (tq, temp_queue, found) =
     (if order_id (h r) = oid
      then remove_loop h oid q (tq - get_remaining_qty (h r), temp_queue, True)
      else remove_loop h oid q (tq, temp_queue @ [r], found))"

definition remove_order :: "heap \<Rightarrow> u64 \<Rightarrow> PriceLevel \<Rightarrow> bool \<times> PriceLevel" where
  "remove_order h oid lvl =
     (if orders lvl = [] then (False, lvl)
      else case remove_loop h oid (orders lvl) (total_quantity lvl, [], False) of
             (tq, temp_queue, found) \<Rightarrow>
               (found, lvl\<lparr>total_quantity := tq, orders := temp_queue\<rparr>))"

definition get_front_order :: "PriceLevel \<Rightarrow> ref option" where
  "get_front_order lvl = (case orders lvl of [] \<Rightarrow> None | r # q \<Rightarrow> Some r)"

definition pop_front_order :: "heap \<Rightarrow> PriceLevel \<Rightarrow> PriceLevel" where
  "pop_front_order h lvl =
     (case orders lvl of
        [] \<Rightarrow> lvl
      | r # q \<Rightarrow> lvl\<lparr>total_quantity := total_quantity lvl - get_remaining_qty (h r),
                       orders := q\<rparr>)"

definition update_quantity :: "u64 \<Rightarrow> u64 \<Rightarrow> PriceLevel \<Rightarrow> PriceLevel" where
  "update_quantity old_remaining new_remaining lvl =
     (if old_remaining \<ge> new_remaining
      then lvl\<lparr>total_quantity := total_quantity lvl - (old_remaining - new_remaining)\<rparr>
      else lvl\<lparr>total_quantity := total_quantity lvl + (new_remaining - old_remaining)\<rparr>)"

definition level_empty :: "PriceLevel \<Rightarrow> bool" where
  "level_empty lvl = (orders lvl = [])"

section \<open>The ladders\<close>

text \<open>
  \<^verbatim>\<open>std::map<double, PriceLevel, Compare>\<close> is a list of (key, level) pairs in the
  order the map iterates them, so \<^verbatim>\<open>begin()\<close> is the head. \<open>cmp\<close> is the map's
  comparison: \<^verbatim>\<open>std::greater\<close> for the bids, \<^verbatim>\<open>std::less\<close> for the asks. That the
  keys are strictly ordered is a property of the container; in the model it is the
  predicate \<open>ladder_sorted\<close>, kept by every operation below. The keys are numbers, on
  which \<^verbatim>\<open>find\<close> and \<^verbatim>\<open>operator[]\<close> look up an equal key (\<open>map_find\<close>, \<open>map_index\<close>); with
  a NaN key, which no key equals and none is above or below, they do not.
\<close>

type_synonym ladder = "(real \<times> PriceLevel) list"

definition greater :: "real \<Rightarrow> real \<Rightarrow> bool" where
  "greater a b = (a > b)"

definition less :: "real \<Rightarrow> real \<Rightarrow> bool" where
  "less a b = (a < b)"

definition map_find :: "ladder \<Rightarrow> real \<Rightarrow> PriceLevel option" where
  "map_find m k = map_of m k"

text \<open>\<^verbatim>\<open>m[k] = v\<close>: overwrite the entry of \<open>k\<close>, or insert it at its place.\<close>

fun map_assign :: "(real \<Rightarrow> real \<Rightarrow> bool) \<Rightarrow> real \<Rightarrow> PriceLevel \<Rightarrow> ladder \<Rightarrow> ladder" where
  "map_assign cmp k v [] = [(k, v)]"
| "map_assign cmp k v ((k', v') # m) =
     (if k = k' then (k, v) # m
      else if cmp k k' then (k, v) # (k', v') # m
      else (k', v') # map_assign cmp k v m)"

text \<open>\<^verbatim>\<open>m[k]\<close> read as a reference: a missing key gets a default-constructed level first.\<close>

definition map_index :: "(real \<Rightarrow> real \<Rightarrow> bool) \<Rightarrow> real \<Rightarrow> ladder \<Rightarrow> ladder" where
  "map_index cmp k m =
     (case map_find m k of None \<Rightarrow> map_assign cmp k PriceLevel_default m | Some v \<Rightarrow> m)"

text \<open>A method call through a reference to the level stored under \<open>k\<close>.\<close>

fun map_modify :: "real \<Rightarrow> (PriceLevel \<Rightarrow> PriceLevel) \<Rightarrow> ladder \<Rightarrow> ladder" where
  "map_modify k f [] = []"
| "map_modify k f ((k', v) # m) =
     (if k' = k then (k', f v) # m else (k', v) # map_modify k f m)"

fun map_erase :: "real \<Rightarrow> ladder \<Rightarrow> ladder" where
  "map_erase k [] = []"
| "map_erase k ((k', v) # m) = (if k' = k then m else (k', v) # map_erase k m)"

section \<open>OrderBook (src/order_book.cpp)\<close>

text \<open>\<^verbatim>\<open>std::unordered_map<std::uint64_t, std::shared_ptr<Order>>\<close>: assignment and erase by key.\<close>

type_synonym index = "u64 \<Rightarrow> ref option"

definition umap_assign :: "index \<Rightarrow> u64 \<Rightarrow> ref \<Rightarrow> index" where
  "umap_assign m k r = m(k := Some r)"

definition umap_erase :: "index \<Rightarrow> u64 \<Rightarrow> index" where
  "umap_erase m k = m(k := None)"

record OrderBook =
  bids :: ladder
  asks :: ladder
  order_map :: index
  next_order_id :: u64
  next_trade_id :: u64
  total_trades :: u64
  total_volume :: u64
  heap :: heap
  heap_top :: ref

text \<open>The contents of a store cell no \<^verbatim>\<open>make_shared\<close> has written yet; nothing reads it.\<close>

definition no_order :: Order where
  "no_order = \<lparr>order_id = 0, order_price = 0, order_quantity = 0, filled_qty = 0,
               order_side = BUY, order_type = MARKET, order_status = NEW\<rparr>"

definition OrderBook_ctor :: OrderBook where
  "OrderBook_ctor =
     \<lparr>bids = [], asks = [], order_map = (\<lambda>oid. None), next_order_id = 1, next_trade_id = 1,
      total_trades = 0, total_volume = 0, heap = (\<lambda>r. no_order), heap_top = 0\<rparr>"

text \<open>
  \<^verbatim>\<open>std::make_shared<Order>(id, price, qty, side, type)\<close>: the constructor's exception
  escapes; otherwise the object is placed at the next unused address.
\<close>

definition make_shared_Order ::
  "OrderBook \<Rightarrow> u64 \<Rightarrow> real \<Rightarrow> u64 \<Rightarrow> Side \<Rightarrow> OrderType \<Rightarrow> error + (ref \<times> OrderBook)" where
  "make_shared_Order s oid p qty sd ty =
     (case Order_ctor oid p qty sd ty of
        Inl e \<Rightarrow> Inl e
      | Inr od \<Rightarrow> Inr (heap_top s, s\<lparr>heap := store (heap s) (heap_top s) od,
                                      heap_top := heap_top s + 1\<rparr>))"

subsection \<open>process_matches_at_level\<close>

text \<open>
  One pass through the body of the loop of \<^verbatim>\<open>process_matches_at_level\<close>, for a non-null
  front order \<open>resting\<close>: the trade is built, both orders are filled through their
  pointers, the level's aggregate is adjusted, and a fully filled resting order is
  popped and erased from the index. \<open>lvl\<close> is the \<^verbatim>\<open>PriceLevel&\<close> argument: the level
  lives in a ladder, and the caller writes the returned level back in its place.
\<close>

definition match_front ::
  "OrderBook \<Rightarrow> ref \<Rightarrow> PriceLevel \<Rightarrow> real \<Rightarrow> ref \<Rightarrow> error + (OrderBook \<times> PriceLevel \<times> Trade)" where
  "match_front s incoming lvl tprice resting =
     (let h = heap s;
          trade_qty = min (get_remaining_qty (h incoming)) (get_remaining_qty (h resting));
          trade = \<lparr>trade_id = next_trade_id s,
                   buy_order_id = (if order_side (h incoming) = BUY then order_id (h incoming)
                                   else order_id (h resting)),
                   sell_order_id = (if order_side (h incoming) = SELL then order_id (h incoming)
                                    else order_id (h resting)),
                   trade_price = tprice,
                   trade_quantity = trade_qty\<rparr>;
          s1 = s\<lparr>next_trade_id := next_trade_id s + 1\<rparr>;
          old_resting_remaining = get_remaining_qty (h resting)
      in case fill trade_qty (h incoming) of
           Inl e \<Rightarrow> Inl e
         | Inr incoming' \<Rightarrow>
             let h1 = store h incoming incoming'
             in case fill trade_qty (h1 resting) of
                  Inl e \<Rightarrow> Inl e
                | Inr resting' \<Rightarrow>
                    let h2 = store h1 resting resting';
                        lvl1 = update_quantity old_resting_remaining
                                 (get_remaining_qty (h2 resting)) lvl;
                        s2 = s1\<lparr>heap := h2\<rparr>
                    in if is_fully_filled (h2 resting)
                       then Inr (s2\<lparr>order_map := umap_erase (order_map s2) (order_id (h2 resting))\<rparr>,
                                 pop_front_order h2 lvl1, trade)
                       else Inr (s2, lvl1, trade))"

function process_matches_at_level ::
  "OrderBook \<Rightarrow> ref \<Rightarrow> PriceLevel \<Rightarrow> real \<Rightarrow> Trade list \<Rightarrow> error + (OrderBook \<times> PriceLevel \<times> Trade list)" where
  "process_matches_at_level s incoming lvl tprice trades =
     (if \<not> level_empty lvl \<and> get_remaining_qty (heap s incoming) > 0
      then (case get_front_order lvl of
              None \<Rightarrow> process_matches_at_level s incoming (pop_front_order (heap s) lvl) tprice trades
            | Some resting \<Rightarrow>
                (case match_front s incoming lvl tprice resting of
                   Inl e \<Rightarrow> Inl e
                 | Inr (s', lvl', trade) \<Rightarrow>
                     process_matches_at_level s' incoming lvl' tprice (trades @ [trade])))
      else Inr (s, lvl, trades))"
  by pat_completeness auto

lemma fill_Inr_fields:
  assumes "fill q od = Inr od'"
  shows "filled_qty od' = filled_qty od + q"
    and "order_quantity od' = order_quantity od"
    and "order_id od' = order_id od"
    and "order_price od' = order_price od"
    and "order_side od' = order_side od"
    and "order_type od' = order_type od"
  using assms by (auto simp: fill_def Let_def split: if_splits)

lemma fill_Inr_remaining:
  assumes "fill q od = Inr od'"
  shows "get_remaining_qty od' = get_remaining_qty od - q"
  unfolding get_remaining_qty_def fill_Inr_fields(1,2)[OF assms]
  by (simp add: diff_diff_eq)

lemma fill_Inr_status:
  assumes "fill q od = Inr od'" and "q \<noteq> 0"
  shows "order_status od \<noteq> CANCELLED" and "order_status od \<noteq> FILLED"
    and "order_status od' = (if filled_qty od + q = order_quantity od then FILLED else PARTIALLY_FILLED)"
  using assms by (auto simp: fill_def Let_def split: if_splits)

lemma fill_zero: "fill 0 od = Inr od"
  by (simp add: fill_def)

lemma match_front_Inr:
  assumes "match_front s incoming lvl tprice resting = Inr (s', lvl', trade)"
  obtains inc' res' where
    "fill (min (get_remaining_qty (heap s incoming)) (get_remaining_qty (heap s resting))) (heap s incoming) = Inr inc'"
    "fill (min (get_remaining_qty (heap s incoming)) (get_remaining_qty (heap s resting))) (store (heap s) incoming inc' resting) = Inr res'"
    "heap s' = store (store (heap s) incoming inc') resting res'"
    "orders lvl' = (if is_fully_filled res' then tl (orders lvl) else orders lvl)"
  using assms
  by (auto simp: match_front_def Let_def store_def pop_front_order_def update_quantity_def
      split: sum.splits if_splits list.splits)

lemma match_front_decreases:
  assumes mf: "match_front s incoming lvl tprice resting = Inr (s', lvl', trade)"
    and front: "get_front_order lvl = Some resting"
    and rem: "get_remaining_qty (heap s incoming) \<noteq> 0"
  shows "length (orders lvl') < length (orders lvl) \<or>
         (length (orders lvl') = length (orders lvl) \<and> get_remaining_qty (heap s' incoming) = 0)"
proof -
  define q where "q = min (get_remaining_qty (heap s incoming)) (get_remaining_qty (heap s resting))"
  from mf obtain inc' res' where
    f1: "fill q (heap s incoming) = Inr inc'" and
    f2: "fill q (store (heap s) incoming inc' resting) = Inr res'" and
    h': "heap s' = store (store (heap s) incoming inc') resting res'" and
    o': "orders lvl' = (if is_fully_filled res' then tl (orders lvl) else orders lvl)"
    unfolding q_def by (rule match_front_Inr)
  from front have ne: "orders lvl \<noteq> []"
    by (auto simp: get_front_order_def split: list.splits)
  show ?thesis
  proof (cases "is_fully_filled res'")
    case True
    with o' ne show ?thesis by simp
  next
    case nf: False
    have neq: "incoming \<noteq> resting"
    proof
      assume eq: "incoming = resting"
      then have q: "q = get_remaining_qty (heap s incoming)" by (simp add: q_def)
      with rem have q0: "q \<noteq> 0" by simp
      have "filled_qty (heap s incoming) + q = order_quantity (heap s incoming)"
        by (simp add: q get_remaining_qty_def)
      with fill_Inr_status(3)[OF f1 q0] have "order_status inc' = FILLED" by simp
      moreover from f2 eq have "fill q inc' = Inr res'" by (simp add: store_def)
      ultimately show False using fill_Inr_status(2)[of q inc' res'] q0 by simp
    qed
    then have r1: "store (heap s) incoming inc' resting = heap s resting"
      by (simp add: store_def)
    from nf have "filled_qty res' \<noteq> order_quantity res'" by (simp add: is_fully_filled_def)
    with fill_Inr_fields(1,2)[OF f2] r1
    have "filled_qty (heap s resting) + q \<noteq> order_quantity (heap s resting)" by simp
    then have "q \<noteq> get_remaining_qty (heap s resting)"
      by (auto simp: get_remaining_qty_def)
    then have "q = get_remaining_qty (heap s incoming)"
      by (auto simp: q_def min_def split: if_splits)
    with fill_Inr_remaining[OF f1] have "get_remaining_qty inc' = 0" by simp
    moreover from neq h' have "heap s' incoming = inc'" by (simp add: store_def)
    ultimately show ?thesis using o' nf by simp
  qed
qed

termination process_matches_at_level
proof (relation "measure (\<lambda>(s, incoming, lvl, tprice, trades).
          2 * length (orders lvl) + (if get_remaining_qty (heap s incoming) = 0 then 0 else 1))")
  show "wf (measure (\<lambda>(s, incoming, lvl, tprice, trades).
          2 * length (orders lvl) + (if get_remaining_qty (heap s incoming) = 0 then 0 else 1)))"
    by simp
next
  fix s :: OrderBook and incoming lvl and tprice :: real and trades :: "Trade list"
  assume "\<not> level_empty lvl \<and> 0 < get_remaining_qty (heap s incoming)"
    and "get_front_order lvl = None"
  then show "((s, incoming, pop_front_order (heap s) lvl, tprice, trades), s, incoming, lvl, tprice, trades)
        \<in> measure (\<lambda>(s, incoming, lvl, tprice, trades).
          2 * length (orders lvl) + (if get_remaining_qty (heap s incoming) = 0 then 0 else 1))"
    by (auto simp: level_empty_def get_front_order_def split: list.splits)
next
  fix s :: OrderBook and incoming lvl and tprice :: real and trades :: "Trade list"
    and resting x2 s' y lvl' trade
  assume g: "\<not> level_empty lvl \<and> 0 < get_remaining_qty (heap s incoming)"
    and front: "get_front_order lvl = Some resting"
    and mf: "match_front s incoming lvl tprice resting = Inr x2"
    and x2: "(s', y) = x2" "(lvl', trade) = y"
  from mf x2 have "match_front s incoming lvl tprice resting = Inr (s', lvl', trade)" by simp
  from match_front_decreases[OF this front] g
  show "((s', incoming, lvl', tprice, trades @ [trade]), s, incoming, lvl, tprice, trades)
        \<in> measure (\<lambda>(s, incoming, lvl, tprice, trades).
          2 * length (orders lvl) + (if get_remaining_qty (heap s incoming) = 0 then 0 else 1))"
    by (auto simp: word_greater_zero_iff)
qed

declare process_matches_at_level.simps [simp del]

lemma process_matches_at_level_exit:
  "process_matches_at_level s incoming lvl tprice trades = Inr (s', lvl', trades') \<Longrightarrow>
   level_empty lvl' \<or> get_remaining_qty (heap s' incoming) = 0"
proof (induction s incoming lvl tprice trades rule: process_matches_at_level.induct)
  case (1 s incoming lvl tprice trades)
  show ?case
  proof (cases "\<not> level_empty lvl \<and> get_remaining_qty (heap s incoming) > 0")
    case False
    with "1.prems" show ?thesis
      by (auto simp: process_matches_at_level.simps[of s incoming lvl] word_greater_zero_iff)
  next
    case g: True
    show ?thesis
    proof (cases "get_front_order lvl")
      case None
      with g "1.prems" "1.IH"(1) show ?thesis
        by (simp add: process_matches_at_level.simps[of s incoming lvl])
    next
      case (Some resting)
      with g "1.prems" obtain s1 lvl1 trade where
        mf: "match_front s incoming lvl tprice resting = Inr (s1, lvl1, trade)" and
        rec: "process_matches_at_level s1 incoming lvl1 tprice (trades @ [trade]) = Inr (s', lvl', trades')"
        by (auto simp: process_matches_at_level.simps[of s incoming lvl] split: sum.splits)
      from "1.IH"(2)[OF g Some mf refl refl rec] show ?thesis .
    qed
  qed
qed

subsection \<open>match_order\<close>

text \<open>
  \<^verbatim>\<open>match_order\<close> has one loop for a BUY order, over \<^verbatim>\<open>asks_\<close>, and the same loop for a SELL
  order, over \<^verbatim>\<open>bids_\<close>, with \<open>\<ge>\<close> turned into \<open>\<le>\<close>. \<open>match_loop sd\<close> is that loop for an
  incoming order of side \<open>sd\<close>: \<open>opposite sd\<close> is the ladder it walks, \<open>price_crosses sd\<close> its
  price test. \<^verbatim>\<open>best_level\<close> is a reference into the ladder, so what
  \<^verbatim>\<open>process_matches_at_level\<close> did to it is written back at the head (the call itself does
  not touch the ladders), and an empty level is erased.
\<close>

definition opposite :: "Side \<Rightarrow> OrderBook \<Rightarrow> ladder" where
  "opposite sd s = (if sd = BUY then asks s else bids s)"

definition set_opposite :: "Side \<Rightarrow> ladder \<Rightarrow> OrderBook \<Rightarrow> OrderBook" where
  "set_opposite sd m s = (if sd = BUY then s\<lparr>asks := m\<rparr> else s\<lparr>bids := m\<rparr>)"

definition price_crosses :: "Side \<Rightarrow> real \<Rightarrow> real \<Rightarrow> bool" where
  "price_crosses sd p k = (if sd = BUY then p \<ge> k else p \<le> k)"

function match_loop :: "Side \<Rightarrow> OrderBook \<Rightarrow> ref \<Rightarrow> Trade list \<Rightarrow> error + (OrderBook \<times> Trade list)" where
  "match_loop sd s incoming trades =
     (case opposite sd s of
        [] \<Rightarrow> Inr (s, trades)
      | (k, best_level) # rest \<Rightarrow>
          if get_remaining_qty (heap s incoming) > 0
          then if order_type (heap s incoming) = MARKET
                  \<or> price_crosses sd (order_price (heap s incoming)) k
               then (case process_matches_at_level s incoming best_level k trades of
                       Inl e \<Rightarrow> Inl e
                     | Inr (s', best_level', trades') \<Rightarrow>
                         match_loop sd
                           (set_opposite sd
                              (if level_empty best_level' then rest else (k, best_level') # rest) s')
                           incoming trades')
               else Inr (s, trades)
          else Inr (s, trades))"
  by pat_completeness auto
termination
proof (relation "measure (\<lambda>(sd, s, incoming, trades).
          2 * length (opposite sd s) + (if get_remaining_qty (heap s incoming) = 0 then 0 else 1))")
  show "wf (measure (\<lambda>(sd, s, incoming, trades).
          2 * length (opposite sd s) + (if get_remaining_qty (heap s incoming) = 0 then 0 else 1)))"
    by simp
next
  fix sd s incoming and trades :: "Trade list" and a rest k best_level x2 s' y best_level' trades'
  assume opp: "opposite sd s = a # rest" and a: "(k, best_level) = a"
    and rem: "0 < get_remaining_qty (heap s incoming)"
    and pm: "process_matches_at_level s incoming best_level k trades = Inr x2"
    and x2: "(s', y) = x2" "(best_level', trades') = y"
  from pm x2 have "process_matches_at_level s incoming best_level k trades = Inr (s', best_level', trades')"
    by simp
  from process_matches_at_level_exit[OF this] opp rem
  show "((sd, set_opposite sd (if level_empty best_level' then rest else (k, best_level') # rest) s',
          incoming, trades'), sd, s, incoming, trades)
        \<in> measure (\<lambda>(sd, s, incoming, trades).
          2 * length (opposite sd s) + (if get_remaining_qty (heap s incoming) = 0 then 0 else 1))"
    by (auto simp: opposite_def set_opposite_def word_greater_zero_iff)
qed

declare match_loop.simps [simp del]

definition match_order :: "OrderBook \<Rightarrow> ref option \<Rightarrow> error + (Trade list \<times> OrderBook)" where
  "match_order s incoming_order =
     (case incoming_order of
        None \<Rightarrow> Inr ([], s)
      | Some incoming \<Rightarrow>
          (case (if order_side (heap s incoming) = BUY then match_loop BUY s incoming []
                 else match_loop SELL s incoming []) of
             Inl e \<Rightarrow> Inl e
           | Inr (s', trades) \<Rightarrow> Inr (trades, s')))"

subsection \<open>add_order, add_market_order\<close>

text \<open>Lines 37 to 50 of \<^verbatim>\<open>add_order\<close>: the order goes into the index and to the back of its level.\<close>

definition ladder_insert ::
  "(real \<Rightarrow> real \<Rightarrow> bool) \<Rightarrow> heap \<Rightarrow> real \<Rightarrow> ref \<Rightarrow> ladder \<Rightarrow> ladder" where
  "ladder_insert cmp h price od m =
     (let m1 = (if map_find m price = None then map_assign cmp price (PriceLevel_ctor price) m
                else m)
      in map_modify price (level_add_order h (Some od)) (map_index cmp price m1))"

definition insert_resting :: "OrderBook \<Rightarrow> u64 \<Rightarrow> ref \<Rightarrow> real \<Rightarrow> Side \<Rightarrow> OrderBook" where
  "insert_resting s oid od price sd =
     (let s1 = s\<lparr>order_map := umap_assign (order_map s) oid od\<rparr>
      in if sd = BUY then s1\<lparr>bids := ladder_insert greater (heap s1) price od (bids s1)\<rparr>
         else s1\<lparr>asks := ladder_insert less (heap s1) price od (asks s1)\<rparr>)"

text \<open>The statistics update that ends both \<^verbatim>\<open>add_order\<close> and \<^verbatim>\<open>add_market_order\<close>.\<close>

definition update_statistics :: "Trade list \<Rightarrow> OrderBook \<Rightarrow> OrderBook" where
  "update_statistics trades s =
     (let s1 = s\<lparr>total_trades := total_trades s + of_nat (length trades)\<rparr>
      in s1\<lparr>total_volume := fold (\<lambda>trade v. v + trade_quantity trade) trades (total_volume s1)\<rparr>)"

text \<open>
  \<^verbatim>\<open>add_order\<close> returns the id only. \<open>add_order_run\<close> is its body and also hands out the
  local \<^verbatim>\<open>trades\<close>, which the claims speak about; a rejection has none.
\<close>

definition add_order_run ::
  "OrderBook \<Rightarrow> real \<Rightarrow> u64 \<Rightarrow> Side \<Rightarrow> OrderType \<Rightarrow> error + (u64 \<times> Trade list \<times> OrderBook)" where
  "add_order_run s price quantity sd ty =
     (if quantity = 0 then Inr (0, [], s)
      else if price < 0 then Inr (0, [], s)
      else if ty = LIMIT \<and> price \<le> 0 then Inr (0, [], s)
      else case make_shared_Order (s\<lparr>next_order_id := next_order_id s + 1\<rparr>)
                  (next_order_id s) price quantity sd ty of
             Inl e \<Rightarrow> Inl e
           | Inr (od, s1) \<Rightarrow>
               let oid = order_id (heap s1 od)
               in case match_order s1 (Some od) of
                    Inl e \<Rightarrow> Inl e
                  | Inr (trades, s2) \<Rightarrow>
                      let s3 = (if get_remaining_qty (heap s2 od) > 0 \<and> ty = LIMIT
                                   \<and> order_status (heap s2 od) \<noteq> CANCELLED
                                then insert_resting s2 oid od price sd else s2)
                      in Inr (oid, trades, update_statistics trades s3))"

definition add_order ::
  "OrderBook \<Rightarrow> real \<Rightarrow> u64 \<Rightarrow> Side \<Rightarrow> OrderType \<Rightarrow> error + (u64 \<times> OrderBook)" where
  "add_order s price quantity sd ty =
     (case add_order_run s price quantity sd ty of
        Inl e \<Rightarrow> Inl e
      | Inr (oid, trades, s') \<Rightarrow> Inr (oid, s'))"

definition add_market_order ::
  "OrderBook \<Rightarrow> u64 \<Rightarrow> Side \<Rightarrow> error + (Trade list \<times> OrderBook)" where
  "add_market_order s quantity sd =
     (if quantity = 0 then Inr ([], s)
      else case make_shared_Order (s\<lparr>next_order_id := next_order_id s + 1\<rparr>)
                  (next_order_id s) 0 quantity sd MARKET of
             Inl e \<Rightarrow> Inl e
           | Inr (od, s1) \<Rightarrow>
               (case match_order s1 (Some od) of
                  Inl e \<Rightarrow> Inl e
                | Inr (trades, s2) \<Rightarrow> Inr (trades, update_statistics trades s2)))"

subsection \<open>cancel_order, clear, best prices\<close>

text \<open>
  The two branches of \<^verbatim>\<open>cancel_order\<close> differ in the ladder only: \<open>ladder_cancel\<close> is the
  branch, on either ladder. It returns \<^verbatim>\<open>removed\<close> and the ladder.
\<close>

definition ladder_cancel :: "heap \<Rightarrow> u64 \<Rightarrow> real \<Rightarrow> ladder \<Rightarrow> bool \<times> ladder" where
  "ladder_cancel h oid price m =
     (case map_find m price of
        None \<Rightarrow> (False, m)
      | Some lvl \<Rightarrow>
          (case remove_order h oid lvl of
             (removed, lvl') \<Rightarrow>
               (removed, if level_empty lvl' then map_erase price m
                         else map_modify price (\<lambda>l. lvl') m)))"

definition cancel_order :: "OrderBook \<Rightarrow> u64 \<Rightarrow> bool \<times> OrderBook" where
  "cancel_order s oid =
     (case order_map s oid of
        None \<Rightarrow> (False, s)
      | Some od \<Rightarrow>
          let s1 = s\<lparr>heap := store (heap s) od (cancel (heap s od))\<rparr>;
              price = order_price (heap s1 od)
          in if order_side (heap s1 od) = BUY
             then (case ladder_cancel (heap s1) oid price (bids s1) of
                     (removed, m) \<Rightarrow>
                       (removed, s1\<lparr>bids := m, order_map := umap_erase (order_map s1) oid\<rparr>))
             else (case ladder_cancel (heap s1) oid price (asks s1) of
                     (removed, m) \<Rightarrow>
                       (removed, s1\<lparr>asks := m, order_map := umap_erase (order_map s1) oid\<rparr>)))"

definition clear :: "OrderBook \<Rightarrow> OrderBook" where
  "clear s = s\<lparr>bids := [], asks := [], order_map := (\<lambda>oid. None),
               total_trades := 0, total_volume := 0\<rparr>"

definition get_best_bid :: "OrderBook \<Rightarrow> real option" where
  "get_best_bid s = (case bids s of [] \<Rightarrow> None | (k, lvl) # m \<Rightarrow> Some k)"

definition get_best_ask :: "OrderBook \<Rightarrow> real option" where
  "get_best_ask s = (case asks s of [] \<Rightarrow> None | (k, lvl) # m \<Rightarrow> Some k)"

section \<open>The specification's wording, and example data\<close>

text \<open>
  The sentence of the specification on \<^verbatim>\<open>remove\<close>, word for word: the first entry with the
  id is removed, the others keep their order, the aggregate goes down by that one order's
  remaining quantity, and the result says whether one was found.
\<close>

fun remove_first :: "heap \<Rightarrow> u64 \<Rightarrow> ref list \<Rightarrow> ref list" where
  "remove_first h oid [] = []"
| "remove_first h oid (r # q) = (if order_id (h r) = oid then q else r # remove_first h oid q)"

definition remove_order_spec :: "heap \<Rightarrow> u64 \<Rightarrow> PriceLevel \<Rightarrow> bool \<times> PriceLevel" where
  "remove_order_spec h oid lvl =
     (case find (\<lambda>r. order_id (h r) = oid) (orders lvl) of
        None \<Rightarrow> (False, lvl)
      | Some r \<Rightarrow> (True, lvl\<lparr>total_quantity := total_quantity lvl - get_remaining_qty (h r),
                               orders := remove_first h oid (orders lvl)\<rparr>))"

definition cx_order :: "u64 \<Rightarrow> u64 \<Rightarrow> Order" where
  "cx_order oid qty = \<lparr>order_id = oid, order_price = 100, order_quantity = qty, filled_qty = 0,
       order_side = BUY, order_type = LIMIT, order_status = NEW\<rparr>"

definition cx_heap :: heap where
  "cx_heap = store (store (store (\<lambda>r. no_order) 0 (cx_order 7 5)) 1 (cx_order 7 3)) 2 (cx_order 8 4)"

definition cx_level :: PriceLevel where
  "cx_level = level_add_order cx_heap (Some 1) (level_add_order cx_heap (Some 0) (PriceLevel_ctor 100))"

definition ok_level :: PriceLevel where
  "ok_level = level_add_order cx_heap (Some 2) (level_add_order cx_heap (Some 0) (PriceLevel_ctor 100))"

section \<open>Call sequences\<close>

text \<open>
  A client of the engine is a sequence of calls of the four mutating operations on a
  book that starts out as \<^verbatim>\<open>OrderBook()\<close>. \<open>do_call\<close> makes one call and gives what it
  returned, the trades it produced and the book it left; \<open>run\<close> makes the calls in
  order and keeps the log. An exception ends the run (\<open>Inl\<close>).
\<close>

datatype call =
    AddOrder real u64 Side OrderType
  | AddMarketOrder u64 Side
  | CancelOrder u64
  | Clear

datatype reply = OrderId u64 | TradeList "Trade list" | Removed bool | Cleared

type_synonym event = "call \<times> reply \<times> Trade list"

fun do_call :: "call \<Rightarrow> OrderBook \<Rightarrow> error + (reply \<times> Trade list \<times> OrderBook)" where
  "do_call (AddOrder price quantity sd ty) s =
     (case add_order_run s price quantity sd ty of
        Inl e \<Rightarrow> Inl e
      | Inr (oid, trades, s') \<Rightarrow> Inr (OrderId oid, trades, s'))"
| "do_call (AddMarketOrder quantity sd) s =
     (case add_market_order s quantity sd of
        Inl e \<Rightarrow> Inl e
      | Inr (trades, s') \<Rightarrow> Inr (TradeList trades, trades, s'))"
| "do_call (CancelOrder oid) s =
     (case cancel_order s oid of (removed, s') \<Rightarrow> Inr (Removed removed, [], s'))"
| "do_call Clear s = Inr (Cleared, [], clear s)"

fun run :: "call list \<Rightarrow> OrderBook \<Rightarrow> error + (event list \<times> OrderBook)" where
  "run [] s = Inr ([], s)"
| "run (c # cs) s =
     (case do_call c s of
        Inl e \<Rightarrow> Inl e
      | Inr (rep, trades, s1) \<Rightarrow>
          (case run cs s1 of
             Inl e \<Rightarrow> Inl e
           | Inr (evs, s') \<Rightarrow> Inr ((c, rep, trades) # evs, s')))"

text \<open>
  A reachable book is one that some calls of the four operations have made out of a new book.
\<close>

definition reachable :: "OrderBook \<Rightarrow> bool" where
  "reachable s = (\<exists>cs evs. run cs OrderBook_ctor = Inr (evs, s))"

text \<open>All trades of a log, in the order they were produced, and those since the last \<^verbatim>\<open>clear\<close>.\<close>

definition all_trades :: "event list \<Rightarrow> Trade list" where
  "all_trades evs = concat (map (\<lambda>(c, rep, trades). trades) evs)"

fun trades_since_clear :: "event list \<Rightarrow> Trade list \<Rightarrow> Trade list" where
  "trades_since_clear [] acc = acc"
| "trades_since_clear ((c, rep, trades) # evs) acc =
     trades_since_clear evs (if c = Clear then [] else acc @ trades)"

section \<open>The matching walk, as the specification tells it\<close>

text \<open>
  The resting orders of a ladder in the order matching meets them (best level first, oldest
  first within a level), each with the key of its level.
\<close>

definition walk_order :: "ladder \<Rightarrow> (real \<times> ref) list" where
  "walk_order m = concat (map (\<lambda>(k, lvl). map (\<lambda>r. (k, r)) (orders lvl)) m)"

text \<open>
  \<open>priced_by_book h sd iid rem xs trades\<close>: the trades are made one by one against the resting
  orders \<open>xs\<close>, in that order, for an incoming order of side \<open>sd\<close> and id \<open>iid\<close> that has \<open>rem\<close>
  left: each trade has the price of the resting order's level, the quantity
  \<open>min(incoming.remaining, resting.remaining)\<close> as they stand when the trade is made, and the
  two ids by side. \<open>h\<close> is the store before matching; a resting order is met at most once, so
  its remaining quantity when it is met is the one in \<open>h\<close>.
\<close>

fun priced_by_book :: "heap \<Rightarrow> Side \<Rightarrow> u64 \<Rightarrow> u64 \<Rightarrow> (real \<times> ref) list \<Rightarrow> Trade list \<Rightarrow> bool" where
  "priced_by_book h sd iid rem xs [] = True"
| "priced_by_book h sd iid rem [] (t # ts) = False"
| "priced_by_book h sd iid rem ((k, r) # xs) (t # ts) =
     (trade_price t = k \<and> order_price (h r) = k
      \<and> trade_quantity t = min rem (get_remaining_qty (h r))
      \<and> order_side (h r) = (if sd = BUY then SELL else BUY)
      \<and> buy_order_id t = (if sd = BUY then iid else order_id (h r))
      \<and> sell_order_id t = (if sd = SELL then iid else order_id (h r))
      \<and> priced_by_book h sd iid (rem - trade_quantity t) xs ts)"

text \<open>
  \<open>filled_by_trades h h' rs trades\<close>: from store \<open>h\<close> to store \<open>h'\<close> the resting order of each
  trade has its \<^verbatim>\<open>filled_qty_\<close> raised by the quantity of that trade.
\<close>

fun filled_by_trades :: "heap \<Rightarrow> heap \<Rightarrow> ref list \<Rightarrow> Trade list \<Rightarrow> bool" where
  "filled_by_trades h h' rs [] = True"
| "filled_by_trades h h' [] (t # ts) = False"
| "filled_by_trades h h' (r # rs) (t # ts) =
     (filled_qty (h' r) = filled_qty (h r) + trade_quantity t \<and> filled_by_trades h h' rs ts)"

text \<open>Consecutive 64-bit numbers from \<open>n\<close> on: each is the one before plus 1, as \<^verbatim>\<open>++\<close> computes it.\<close>

fun consecutive_from :: "u64 \<Rightarrow> u64 list \<Rightarrow> bool" where
  "consecutive_from n [] = True"
| "consecutive_from n (x # xs) = (x = n \<and> consecutive_from (n + 1) xs)"

section \<open>Well-formed books\<close>

text \<open>
  What every book built by the public operations satisfies (theorem \<open>run_book_inv\<close> below).
  A resting order is a live limit order of the ladder's side, priced at its level's key,
  with something left to fill. The index points at resting orders only.
\<close>

definition live :: "Order \<Rightarrow> bool" where
  "live od = (order_status od = NEW \<or> order_status od = PARTIALLY_FILLED)"

definition resting_ok :: "heap \<Rightarrow> Side \<Rightarrow> real \<Rightarrow> ref \<Rightarrow> bool" where
  "resting_ok h sd k r =
     (order_side (h r) = sd \<and> order_price (h r) = k \<and> order_type (h r) = LIMIT
      \<and> live (h r) \<and> filled_qty (h r) < order_quantity (h r))"

text \<open>The sum of the remaining quantities of a queue, in 64-bit arithmetic as the aggregate itself.\<close>

definition level_sum :: "heap \<Rightarrow> ref list \<Rightarrow> u64" where
  "level_sum h q = sum_list (map (\<lambda>r. get_remaining_qty (h r)) q)"

definition level_ok :: "heap \<Rightarrow> Side \<Rightarrow> real \<Rightarrow> PriceLevel \<Rightarrow> bool" where
  "level_ok h sd k lvl =
     (level_price lvl = k \<and> list_all (resting_ok h sd k) (orders lvl)
      \<and> total_quantity lvl = level_sum h (orders lvl))"

definition ladder_ok :: "heap \<Rightarrow> Side \<Rightarrow> ladder \<Rightarrow> bool" where
  "ladder_ok h sd m = list_all (\<lambda>(k, lvl). level_ok h sd k lvl) m"

definition ladder_refs :: "ladder \<Rightarrow> ref list" where
  "ladder_refs m = concat (map (\<lambda>(k, lvl). orders lvl) m)"

definition book_refs :: "OrderBook \<Rightarrow> ref list" where
  "book_refs s = ladder_refs (bids s) @ ladder_refs (asks s)"

definition ladder_sorted :: "(real \<Rightarrow> real \<Rightarrow> bool) \<Rightarrow> ladder \<Rightarrow> bool" where
  "ladder_sorted cmp m = sorted_wrt cmp (map fst m)"

definition uncrossed :: "OrderBook \<Rightarrow> bool" where
  "uncrossed s =
     (case get_best_bid s of
        None \<Rightarrow> True
      | Some b \<Rightarrow> (case get_best_ask s of None \<Rightarrow> True | Some a \<Rightarrow> b < a))"

definition index_ok :: "OrderBook \<Rightarrow> bool" where
  "index_ok s =
     (\<forall>oid r. order_map s oid = Some r \<longrightarrow> order_id (heap s r) = oid \<and> r \<in> set (book_refs s))"

definition book_inv :: "OrderBook \<Rightarrow> bool" where
  "book_inv s =
     (ladder_sorted greater (bids s) \<and> ladder_sorted less (asks s)
      \<and> ladder_ok (heap s) BUY (bids s) \<and> ladder_ok (heap s) SELL (asks s)
      \<and> distinct (book_refs s) \<and> list_all (\<lambda>r. r < heap_top s) (book_refs s)
      \<and> uncrossed s \<and> index_ok s)"

text \<open>
  While an incoming order is matched it is in the store but not on the book; it has not
  been filled beyond its quantity, and is live as long as something is left of it.
\<close>

definition incoming_ok :: "Order \<Rightarrow> bool" where
  "incoming_ok od =
     (filled_qty od \<le> order_quantity od \<and> (filled_qty od \<noteq> order_quantity od \<longrightarrow> live od))"

definition match_inv :: "OrderBook \<Rightarrow> ref \<Rightarrow> bool" where
  "match_inv s incoming =
     (book_inv s \<and> incoming < heap_top s \<and> incoming \<notin> set (book_refs s)
      \<and> incoming_ok (heap s incoming))"

text \<open>The ladder of an order's own side, and the side it trades against.\<close>

definition own :: "Side \<Rightarrow> OrderBook \<Rightarrow> ladder" where
  "own sd s = (if sd = BUY then bids s else asks s)"

definition other_side :: "Side \<Rightarrow> Side" where
  "other_side sd = (if sd = BUY then SELL else BUY)"

definition side_cmp :: "Side \<Rightarrow> real \<Rightarrow> real \<Rightarrow> bool" where
  "side_cmp sd = (if sd = BUY then greater else less)"

text \<open>
  \<open>conserved s sd trades s'\<close>: what a call that produced \<open>trades\<close> for an incoming order of
  side \<open>sd\<close> did to the quantities, from book \<open>s\<close> to book \<open>s'\<close>. The incoming order is
  the object the call created, at address \<open>heap_top s\<close>; the resting order of the i-th
  trade is the i-th order of the opposite ladder. Each resting order's \<^verbatim>\<open>filled_qty_\<close> went up
  by its trade's quantity, the incoming order's by the quantity of every trade, no other
  order's \<^verbatim>\<open>filled_qty_\<close> changed, and \<^verbatim>\<open>total_volume_\<close> went up by each quantity once.
\<close>

definition conserved :: "OrderBook \<Rightarrow> Side \<Rightarrow> Trade list \<Rightarrow> OrderBook \<Rightarrow> bool" where
  "conserved s sd trades s' =
     (filled_by_trades (heap s) (heap s') (ladder_refs (opposite sd s)) trades
      \<and> (trades = [] \<or> filled_qty (heap s' (heap_top s)) = sum_list (map trade_quantity trades))
      \<and> list_all (\<lambda>r. r \<in> set (take (length trades) (ladder_refs (opposite sd s)))
                       \<or> filled_qty (heap s' r) = filled_qty (heap s r)) [0..<heap_top s]
      \<and> total_volume s' = total_volume s + sum_list (map trade_quantity trades))"

text \<open>The aggregate of a level is the sum of what is left of the orders in its queue.\<close>

definition aggregate_ok :: "heap \<Rightarrow> PriceLevel \<Rightarrow> bool" where
  "aggregate_ok h lvl = (total_quantity lvl = level_sum h (orders lvl))"

section \<open>Issued ids\<close>

text \<open>
  The calls that pass the parameter checks of \<^verbatim>\<open>add_order\<close> and \<^verbatim>\<open>add_market_order\<close> and go on
  to construct an \<^verbatim>\<open>Order\<close>.
\<close>

fun accepts :: "call \<Rightarrow> bool" where
  "accepts (AddOrder price quantity sd ty) =
     (\<not> (quantity = 0 \<or> price < 0 \<or> (ty = LIMIT \<and> price \<le> 0)))"
| "accepts (AddMarketOrder quantity sd) = (quantity \<noteq> 0)"
| "accepts (CancelOrder oid) = False"
| "accepts Clear = False"

text \<open>
  The ids of the \<^verbatim>\<open>Order\<close> objects constructed so far, in the order of their construction:
  the store never frees an address, so this is the order of the addresses.
\<close>

definition issued_order_ids :: "OrderBook \<Rightarrow> u64 list" where
  "issued_order_ids s = map (\<lambda>r. order_id (heap s r)) [0..<heap_top s]"

text \<open>
  \<open>issues s n trades s'\<close>: from book \<open>s\<close> to book \<open>s'\<close>, \<open>n\<close> orders were constructed (0 or 1),
  the new one with the id \<^verbatim>\<open>next_order_id_\<close>, which went up by \<open>n\<close>; no order changed its id;
  the trades have the ids from \<^verbatim>\<open>next_trade_id_\<close> on, one each, and \<^verbatim>\<open>next_trade_id_\<close> went
  up by their number.
\<close>

definition issues :: "OrderBook \<Rightarrow> nat \<Rightarrow> Trade list \<Rightarrow> OrderBook \<Rightarrow> bool" where
  "issues s n trades s' =
     (heap_top s' = heap_top s + n \<and> next_order_id s' = next_order_id s + of_nat n
      \<and> list_all (\<lambda>r. order_id (heap s' r) = order_id (heap s r)) [0..<heap_top s]
      \<and> (n = 0 \<or> order_id (heap s' (heap_top s)) = next_order_id s)
      \<and> consecutive_from (next_trade_id s) (map trade_id trades)
      \<and> next_trade_id s' = next_trade_id s + of_nat (length trades))"

section \<open>The equations between numbers\<close>

text \<open>
  The log and the book that a sequence of calls on a new book leaves (no call throws:
  \<open>run_log_book\<close> below).
\<close>

definition run_log :: "call list \<Rightarrow> event list" where
  "run_log cs = (case run cs OrderBook_ctor of Inr (evs, s) \<Rightarrow> evs | Inl e \<Rightarrow> [])"

definition run_book :: "call list \<Rightarrow> OrderBook" where
  "run_book cs = (case run cs OrderBook_ctor of Inr (evs, s) \<Rightarrow> s | Inl e \<Rightarrow> OrderBook_ctor)"

text \<open>
  The specification's two equations read between numbers, not between 64-bit words:
  \<^verbatim>\<open>total_volume\<close> is the sum of the quantities of the trades since the last \<^verbatim>\<open>clear\<close>, and
  a level's \<^verbatim>\<open>total_quantity\<close> is the sum of the remaining quantities of its queue.
\<close>

definition quantities :: "Trade list \<Rightarrow> nat list" where
  "quantities trades = map (\<lambda>t. unat (trade_quantity t)) trades"

definition volume_is_sum :: "OrderBook \<Rightarrow> event list \<Rightarrow> bool" where
  "volume_is_sum s evs =
     (unat (total_volume s) = sum_list (quantities (trades_since_clear evs [])))"

definition remaining_quantities :: "heap \<Rightarrow> ref list \<Rightarrow> nat list" where
  "remaining_quantities h q = map (\<lambda>r. unat (get_remaining_qty (h r))) q"

definition aggregate_is_sum :: "heap \<Rightarrow> PriceLevel \<Rightarrow> bool" where
  "aggregate_is_sum h lvl =
     (unat (total_quantity lvl) = sum_list (remaining_quantities h (orders lvl)))"

section \<open>Price level lemmas\<close>

lemma remove_loop_orders:
  "fst (snd (remove_loop h oid q (t, tmp, found))) = tmp @ filter (\<lambda>r. order_id (h r) \<noteq> oid) q"
  by (induction q arbitrary: t tmp found) auto

lemma remove_loop_total:
  "fst (remove_loop h oid q (t, tmp, found)) =
     t - sum_list (map (\<lambda>r. get_remaining_qty (h r)) (filter (\<lambda>r. order_id (h r) = oid) q))"
  by (induction q arbitrary: t tmp found) (auto simp: diff_diff_eq)

lemma remove_loop_found:
  "snd (snd (remove_loop h oid q (t, tmp, found))) = (found \<or> (\<exists>r\<in>set q. order_id (h r) = oid))"
  by (induction q arbitrary: t tmp found) auto

lemma remove_order_eq:
  "remove_order h oid lvl =
     ((\<exists>r\<in>set (orders lvl). order_id (h r) = oid),
      lvl\<lparr>total_quantity := total_quantity lvl
              - sum_list (map (\<lambda>r. get_remaining_qty (h r))
                           (filter (\<lambda>r. order_id (h r) = oid) (orders lvl))),
          orders := filter (\<lambda>r. order_id (h r) \<noteq> oid) (orders lvl)\<rparr>)"
proof (cases "orders lvl = []")
  case True
  then show ?thesis by (simp add: remove_order_def)
next
  case False
  obtain t tmp found where r: "remove_loop h oid (orders lvl) (total_quantity lvl, [], False) = (t, tmp, found)"
    by (cases "remove_loop h oid (orders lvl) (total_quantity lvl, [], False)") auto
  from remove_loop_total[of h oid "orders lvl" "total_quantity lvl" "[]" False]
       remove_loop_orders[of h oid "orders lvl" "total_quantity lvl" "[]" False]
       remove_loop_found[of h oid "orders lvl" "total_quantity lvl" "[]" False] r False
  show ?thesis by (simp add: remove_order_def)
qed

lemma remove_first_filter:
  "length (filter (\<lambda>r. order_id (h r) = oid) q) \<le> 1 \<Longrightarrow>
   remove_first h oid q = filter (\<lambda>r. order_id (h r) \<noteq> oid) q"
  by (induction q) (auto simp: filter_id_conv filter_empty_conv)

lemma find_filter_single:
  "length (filter P q) \<le> 1 \<Longrightarrow> find P q = Some r \<Longrightarrow> filter P q = [r]"
  by (induction q) (auto simp: filter_empty_conv split: if_splits)

section \<open>Matching keeps the book well formed\<close>

lemma fill_low:
  fixes f q Q :: u64
  assumes "f \<le> Q" and "q \<le> Q - f"
  shows "f + q \<le> Q" and "\<not> Q < f + q"
proof -
  have "f + q \<le> f + (Q - f)"
    using assms by (intro word_plus_mono_right) simp_all
  then show "f + q \<le> Q" by simp
  then show "\<not> Q < f + q" by simp
qed

lemma fill_full_iff:
  fixes f q Q :: u64
  shows "(f + q = Q) = (q = Q - f)"
  by auto

lemma remaining_zero_iff: "(get_remaining_qty od = 0) = (filled_qty od = order_quantity od)"
  by (auto simp: get_remaining_qty_def)

lemma fill_ok:
  assumes "incoming_ok od" and "q \<le> get_remaining_qty od" and "q \<noteq> 0"
  shows "fill q od = Inr (od\<lparr>filled_qty := filled_qty od + q,
                             order_status := (if q = get_remaining_qty od then FILLED
                                              else PARTIALLY_FILLED)\<rparr>)"
proof -
  from assms have le: "filled_qty od \<le> order_quantity od"
    and q: "q \<le> order_quantity od - filled_qty od"
    by (simp_all add: incoming_ok_def get_remaining_qty_def)
  from assms have "get_remaining_qty od \<noteq> 0" by auto
  then have "filled_qty od \<noteq> order_quantity od" by (simp add: remaining_zero_iff)
  with assms(1) have "live od" by (simp add: incoming_ok_def)
  then have st: "order_status od \<noteq> CANCELLED" "order_status od \<noteq> FILLED"
    by (auto simp: live_def)
  show ?thesis
    using fill_low(2)[OF le q] st assms(3)
    by (simp add: fill_def Let_def fill_full_iff get_remaining_qty_def)
qed

lemma fill_ok_incoming:
  assumes "incoming_ok od" and "q \<le> get_remaining_qty od"
  shows "\<exists>od'. fill q od = Inr od' \<and> incoming_ok od'"
proof (cases "q = 0")
  case True
  with assms show ?thesis by (simp add: fill_def)
next
  case False
  from assms have le: "filled_qty od \<le> order_quantity od"
    and q: "q \<le> order_quantity od - filled_qty od"
    by (simp_all add: incoming_ok_def get_remaining_qty_def)
  show ?thesis
    using fill_ok[OF assms False] fill_low(1)[OF le q]
    by (auto simp: incoming_ok_def live_def fill_full_iff get_remaining_qty_def)
qed

definition filled_by :: "u64 \<Rightarrow> Order \<Rightarrow> Order" where
  "filled_by q od = od\<lparr>filled_qty := filled_qty od + q,
                        order_status := (if q = get_remaining_qty od then FILLED
                                         else PARTIALLY_FILLED)\<rparr>"

lemma filled_by_fields [simp]:
  "order_id (filled_by q od) = order_id od"
  "order_price (filled_by q od) = order_price od"
  "order_quantity (filled_by q od) = order_quantity od"
  "order_side (filled_by q od) = order_side od"
  "order_type (filled_by q od) = order_type od"
  "filled_qty (filled_by q od) = filled_qty od + q"
  "get_remaining_qty (filled_by q od) = get_remaining_qty od - q"
  by (simp_all add: filled_by_def get_remaining_qty_def diff_diff_eq)

lemma match_front_ok:
  assumes neq: "incoming \<noteq> r"
    and io: "incoming_ok (heap s incoming)" and ir: "get_remaining_qty (heap s incoming) \<noteq> 0"
    and ro: "incoming_ok (heap s r)" and rr: "get_remaining_qty (heap s r) \<noteq> 0"
    and ord: "orders lvl = r # rest"
    and q: "q = min (get_remaining_qty (heap s incoming)) (get_remaining_qty (heap s r))"
  shows "match_front s incoming lvl tp r =
     Inr (s\<lparr>next_trade_id := next_trade_id s + 1,
             heap := store (store (heap s) incoming (filled_by q (heap s incoming))) r
                       (filled_by q (heap s r)),
             order_map := (if q = get_remaining_qty (heap s r)
                           then umap_erase (order_map s) (order_id (heap s r))
                           else order_map s)\<rparr>,
          lvl\<lparr>total_quantity := total_quantity lvl - q,
               orders := (if q = get_remaining_qty (heap s r) then rest else r # rest)\<rparr>,
          \<lparr>trade_id = next_trade_id s,
            buy_order_id = (if order_side (heap s incoming) = BUY then order_id (heap s incoming)
                            else order_id (heap s r)),
            sell_order_id = (if order_side (heap s incoming) = SELL then order_id (heap s incoming)
                             else order_id (heap s r)),
            trade_price = tp, trade_quantity = q\<rparr>)"
proof -
  from q ir rr have q0: "q \<noteq> 0" by (auto simp: min_def)
  from q have qi: "q \<le> get_remaining_qty (heap s incoming)" and qr: "q \<le> get_remaining_qty (heap s r)"
    by simp_all
  have f1: "fill q (heap s incoming) = Inr (filled_by q (heap s incoming))"
    using fill_ok[OF io qi q0] by (simp add: filled_by_def)
  have f2: "fill q (heap s r) = Inr (filled_by q (heap s r))"
    using fill_ok[OF ro qr q0] by (simp add: filled_by_def)
  have full: "is_fully_filled (filled_by q (heap s r)) = (q = get_remaining_qty (heap s r))"
    by (simp add: is_fully_filled_def filled_by_def fill_full_iff get_remaining_qty_def)
  have rem': "get_remaining_qty (filled_by q (heap s r)) = get_remaining_qty (heap s r) - q"
    by simp
  have le: "get_remaining_qty (heap s r) - q \<le> get_remaining_qty (heap s r)"
    using qr by (rule word_sub_le)
  show ?thesis
    using neq f1 f2 full rem' le ord q[symmetric]
    by (simp add: match_front_def Let_def store_def update_quantity_def pop_front_order_def)
qed

definition apart :: "Side \<Rightarrow> ladder \<Rightarrow> ladder \<Rightarrow> bool" where
  "apart sd m1 m2 =
     (case m1 of [] \<Rightarrow> True
      | (p, l1) # r1 \<Rightarrow> (case m2 of [] \<Rightarrow> True | (k, l2) # r2 \<Rightarrow> \<not> price_crosses sd p k))"

definition side_inv :: "Side \<Rightarrow> OrderBook \<Rightarrow> bool" where
  "side_inv sd s =
     (ladder_sorted (side_cmp sd) (own sd s)
      \<and> ladder_sorted (side_cmp (other_side sd)) (opposite sd s)
      \<and> ladder_ok (heap s) sd (own sd s)
      \<and> ladder_ok (heap s) (other_side sd) (opposite sd s)
      \<and> distinct (ladder_refs (own sd s) @ ladder_refs (opposite sd s))
      \<and> list_all (\<lambda>r. r < heap_top s) (ladder_refs (own sd s) @ ladder_refs (opposite sd s))
      \<and> apart sd (own sd s) (opposite sd s)
      \<and> (\<forall>oid r. order_map s oid = Some r \<longrightarrow>
             order_id (heap s r) = oid
             \<and> r \<in> set (ladder_refs (own sd s)) \<union> set (ladder_refs (opposite sd s))))"

lemma book_inv_side: "book_inv s = side_inv sd s"
proof (cases sd)
  case BUY
  then show ?thesis
    by (auto simp: book_inv_def side_inv_def own_def opposite_def other_side_def side_cmp_def
        book_refs_def index_ok_def uncrossed_def apart_def price_crosses_def
        get_best_bid_def get_best_ask_def split: list.splits)
next
  case SELL
  then show ?thesis
    by (auto simp: book_inv_def side_inv_def own_def opposite_def other_side_def side_cmp_def
        book_refs_def index_ok_def uncrossed_def apart_def price_crosses_def
        get_best_bid_def get_best_ask_def split: list.splits)
qed

lemma set_book_refs: "set (book_refs s) = set (ladder_refs (own sd s)) \<union> set (ladder_refs (opposite sd s))"
  by (cases sd) (auto simp: book_refs_def own_def opposite_def)

lemma set_opposite_simps [simp]:
  "opposite sd (set_opposite sd m s) = m"
  "own sd (set_opposite sd m s) = own sd s"
  "heap (set_opposite sd m s) = heap s"
  "heap_top (set_opposite sd m s) = heap_top s"
  "order_map (set_opposite sd m s) = order_map s"
  "next_order_id (set_opposite sd m s) = next_order_id s"
  "next_trade_id (set_opposite sd m s) = next_trade_id s"
  "total_trades (set_opposite sd m s) = total_trades s"
  "total_volume (set_opposite sd m s) = total_volume s"
  by (cases sd; simp add: set_opposite_def opposite_def own_def)+

lemma set_opposite_same: "opposite sd s = m \<Longrightarrow> set_opposite sd m s = s"
  by (cases sd) (auto simp: set_opposite_def opposite_def)

lemma set_opposite_twice [simp]: "set_opposite sd m (set_opposite sd m' s) = set_opposite sd m s"
  by (cases sd) (auto simp: set_opposite_def)

lemma level_sum_cong: "\<forall>r\<in>set q. h' r = h r \<Longrightarrow> level_sum h' q = level_sum h q"
  by (induction q) (auto simp: level_sum_def)

lemma level_ok_cong:
  "\<forall>r\<in>set (orders lvl). h' r = h r \<Longrightarrow> level_ok h' sd k lvl = level_ok h sd k lvl"
  using level_sum_cong[of "orders lvl" h' h]
  by (auto simp: level_ok_def list_all_iff resting_ok_def)

lemma ladder_ok_cong:
  "\<forall>r\<in>set (ladder_refs m). h' r = h r \<Longrightarrow> ladder_ok h' sd m = ladder_ok h sd m"
proof (induction m)
  case Nil
  then show ?case by (simp add: ladder_ok_def)
next
  case (Cons kl m)
  obtain k lvl where kl: "kl = (k, lvl)" by (cases kl)
  from Cons.prems kl have a: "\<forall>r\<in>set (orders lvl). h' r = h r" and b: "\<forall>r\<in>set (ladder_refs m). h' r = h r"
    by (auto simp: ladder_refs_def)
  from level_ok_cong[OF a] Cons.IH[OF b] kl show ?case
    by (simp add: ladder_ok_def)
qed

lemma ladder_refs_Cons [simp]: "ladder_refs ((k, lvl) # m) = orders lvl @ ladder_refs m"
  by (simp add: ladder_refs_def)

lemma ladder_refs_Nil [simp]: "ladder_refs [] = []"
  by (simp add: ladder_refs_def)

lemma ladder_ok_Cons [simp]: "ladder_ok h sd ((k, lvl) # m) = (level_ok h sd k lvl \<and> ladder_ok h sd m)"
  by (simp add: ladder_ok_def)

lemma ladder_ok_Nil [simp]: "ladder_ok h sd []"
  by (simp add: ladder_ok_def)

lemma level_sum_Cons [simp]: "level_sum h (r # q) = get_remaining_qty (h r) + level_sum h q"
  by (simp add: level_sum_def)

lemma level_sum_Nil [simp]: "level_sum h [] = 0"
  by (simp add: level_sum_def)

lemma resting_ok_incoming_ok: "resting_ok h sd k r \<Longrightarrow> incoming_ok (h r) \<and> get_remaining_qty (h r) \<noteq> 0"
  by (auto simp: resting_ok_def incoming_ok_def remaining_zero_iff)

lemma incoming_ok_filled_by:
  assumes "incoming_ok od" and "q \<le> get_remaining_qty od" and "q \<noteq> 0"
  shows "incoming_ok (filled_by q od)"
proof -
  from assms have le: "filled_qty od \<le> order_quantity od"
    and q: "q \<le> order_quantity od - filled_qty od"
    by (simp_all add: incoming_ok_def get_remaining_qty_def)
  show ?thesis
    using fill_low(1)[OF le q]
    by (auto simp: incoming_ok_def filled_by_def live_def fill_full_iff get_remaining_qty_def)
qed

lemma resting_ok_filled_by:
  assumes "resting_ok h sd k r" and "q \<le> get_remaining_qty (h r)" and "q \<noteq> 0"
    and "q \<noteq> get_remaining_qty (h r)" and "h' r = filled_by q (h r)"
  shows "resting_ok h' sd k r"
proof -
  from assms(1) have le: "filled_qty (h r) \<le> order_quantity (h r)"
    by (auto simp: resting_ok_def)
  from assms(2) have q: "q \<le> order_quantity (h r) - filled_qty (h r)"
    by (simp add: get_remaining_qty_def)
  from assms(4) have "filled_qty (h r) + q \<noteq> order_quantity (h r)"
    by (simp add: fill_full_iff get_remaining_qty_def)
  with fill_low(1)[OF le q] have "filled_qty (h r) + q < order_quantity (h r)" by simp
  with assms show ?thesis
    by (simp add: resting_ok_def filled_by_def live_def)
qed

text \<open>
  The invariant of the loop of \<^verbatim>\<open>process_matches_at_level\<close>: the book with the level being
  consumed put back at the head of its ladder is well formed.
\<close>

definition level_inv :: "Side \<Rightarrow> real \<Rightarrow> ladder \<Rightarrow> ref \<Rightarrow> OrderBook \<Rightarrow> PriceLevel \<Rightarrow> bool" where
  "level_inv sd k rest incoming s lvl = match_inv (set_opposite sd ((k, lvl) # rest) s) incoming"

lemma level_inv_unfold:
  "level_inv sd k rest incoming s lvl =
    (ladder_sorted (side_cmp sd) (own sd s)
      \<and> ladder_sorted (side_cmp (other_side sd)) ((k, lvl) # rest)
      \<and> ladder_ok (heap s) sd (own sd s)
      \<and> level_ok (heap s) (other_side sd) k lvl
      \<and> ladder_ok (heap s) (other_side sd) rest
      \<and> distinct (ladder_refs (own sd s) @ orders lvl @ ladder_refs rest)
      \<and> list_all (\<lambda>r. r < heap_top s) (ladder_refs (own sd s) @ orders lvl @ ladder_refs rest)
      \<and> apart sd (own sd s) ((k, lvl) # rest)
      \<and> (\<forall>oid r. order_map s oid = Some r \<longrightarrow>
             order_id (heap s r) = oid
             \<and> r \<in> set (ladder_refs (own sd s)) \<union> set (orders lvl) \<union> set (ladder_refs rest))
      \<and> incoming < heap_top s
      \<and> incoming \<notin> set (ladder_refs (own sd s)) \<union> set (orders lvl) \<union> set (ladder_refs rest)
      \<and> incoming_ok (heap s incoming))"
  unfolding level_inv_def match_inv_def book_inv_side[of _ sd] side_inv_def
    set_book_refs[of _ sd]
  by (simp add: Un_assoc)

lemma level_inv_front:
  assumes "level_inv sd k rest incoming s lvl" and "orders lvl = r # q"
  shows "incoming \<noteq> r" and "incoming_ok (heap s incoming)"
    and "resting_ok (heap s) (other_side sd) k r"
    and "incoming_ok (heap s r)" and "get_remaining_qty (heap s r) \<noteq> 0"
proof -
  from assms show "incoming \<noteq> r" and "incoming_ok (heap s incoming)"
    by (auto simp: level_inv_unfold)
  from assms show ro: "resting_ok (heap s) (other_side sd) k r"
    by (simp add: level_inv_unfold level_ok_def)
  from resting_ok_incoming_ok[OF ro]
  show "incoming_ok (heap s r)" and "get_remaining_qty (heap s r) \<noteq> 0" by simp_all
qed

lemma match_front_level_inv:
  assumes inv: "level_inv sd k rest incoming s lvl" and ord: "orders lvl = r # qs"
    and ir: "get_remaining_qty (heap s incoming) \<noteq> 0"
    and mf: "match_front s incoming lvl tp r = Inr (s', lvl', t)"
  shows "level_inv sd k rest incoming s' lvl'"
proof -
  define q where "q = min (get_remaining_qty (heap s incoming)) (get_remaining_qty (heap s r))"
  note fr = level_inv_front[OF inv ord]
  from q_def ir fr(5) have q0: "q \<noteq> 0" by (auto simp: min_def)
  from q_def have qi: "q \<le> get_remaining_qty (heap s incoming)" and qr: "q \<le> get_remaining_qty (heap s r)"
    by simp_all
  define h' where "h' = store (store (heap s) incoming (filled_by q (heap s incoming))) r
                       (filled_by q (heap s r))"
  from match_front_ok[OF fr(1) fr(2) ir fr(4) fr(5) ord q_def, of tp] mf
  have s': "heap s' = h'" "heap_top s' = heap_top s" "own sd s' = own sd s"
      "order_map s' = (if q = get_remaining_qty (heap s r)
                           then umap_erase (order_map s) (order_id (heap s r))
                           else order_map s)"
    and lvl': "level_price lvl' = level_price lvl" "total_quantity lvl' = total_quantity lvl - q"
      "orders lvl' = (if q = get_remaining_qty (heap s r) then qs else r # qs)"
    by (auto simp: h'_def own_def)
  have hi: "h' incoming = filled_by q (heap s incoming)" and hr: "h' r = filled_by q (heap s r)"
    and ho: "\<And>x. x \<noteq> incoming \<Longrightarrow> x \<noteq> r \<Longrightarrow> h' x = heap s x"
    using fr(1) by (simp_all add: h'_def store_def)
  have ids: "\<And>x. order_id (h' x) = order_id (heap s x)"
    by (simp add: h'_def store_def)
  from inv have I: "ladder_sorted (side_cmp sd) (own sd s)"
      "ladder_sorted (side_cmp (other_side sd)) ((k, lvl) # rest)"
      "ladder_ok (heap s) sd (own sd s)"
      "level_ok (heap s) (other_side sd) k lvl"
      "ladder_ok (heap s) (other_side sd) rest"
      "distinct (ladder_refs (own sd s) @ orders lvl @ ladder_refs rest)"
      "list_all (\<lambda>r. r < heap_top s) (ladder_refs (own sd s) @ orders lvl @ ladder_refs rest)"
      "apart sd (own sd s) ((k, lvl) # rest)"
      "\<forall>oid r. order_map s oid = Some r \<longrightarrow>
             order_id (heap s r) = oid
             \<and> r \<in> set (ladder_refs (own sd s)) \<union> set (orders lvl) \<union> set (ladder_refs rest)"
      "incoming < heap_top s"
      "incoming \<notin> set (ladder_refs (own sd s)) \<union> set (orders lvl) \<union> set (ladder_refs rest)"
    by (simp_all add: level_inv_unfold)
  have sub: "set (orders lvl') \<subseteq> set (orders lvl)"
    using lvl'(3) ord by auto
  have c1: "ladder_sorted (side_cmp (other_side sd)) ((k, lvl') # rest)"
    using I(2) by (simp add: ladder_sorted_def)
  have own_same: "\<forall>x\<in>set (ladder_refs (own sd s)). h' x = heap s x"
    using I(6,11) ord by (auto intro!: ho)
  have rest_same: "\<forall>x\<in>set (ladder_refs rest). h' x = heap s x"
    using I(6,11) ord by (auto intro!: ho)
  have qs_same: "\<forall>x\<in>set qs. h' x = heap s x"
    using I(6,11) ord by (auto intro!: ho)
  have c3: "ladder_ok h' sd (own sd s)"
    using ladder_ok_cong[OF own_same] I(3) by simp
  have c5: "ladder_ok h' (other_side sd) rest"
    using ladder_ok_cong[OF rest_same] I(5) by simp
  from I(4) ord have lv: "level_price lvl = k" "resting_ok (heap s) (other_side sd) k r"
      "list_all (resting_ok (heap s) (other_side sd) k) qs"
      "total_quantity lvl = get_remaining_qty (heap s r) + level_sum (heap s) qs"
    by (simp_all add: level_ok_def)
  have qs_ok: "list_all (resting_ok h' (other_side sd) k) qs"
    using lv(3) qs_same by (simp add: list_all_iff resting_ok_def)
  have sum_same: "level_sum h' qs = level_sum (heap s) qs"
    using level_sum_cong[OF qs_same] .
  have c4: "level_ok h' (other_side sd) k lvl'"
  proof (cases "q = get_remaining_qty (heap s r)")
    case True
    with lvl' lv qs_ok sum_same show ?thesis
      by (simp add: level_ok_def)
  next
    case False
    have "resting_ok h' (other_side sd) k r"
      using lv(2) qr q0 False hr by (rule resting_ok_filled_by[where h = "heap s" and q = q])
    with False lvl' lv qs_ok sum_same hr show ?thesis
      by (simp add: level_ok_def)
  qed
  have c6: "distinct (ladder_refs (own sd s) @ orders lvl' @ ladder_refs rest)"
    using I(6) lvl'(3) ord by auto
  have c7: "list_all (\<lambda>r. r < heap_top s) (ladder_refs (own sd s) @ orders lvl' @ ladder_refs rest)"
    using I(7) lvl'(3) ord by auto
  have c8: "apart sd (own sd s) ((k, lvl') # rest)"
    using I(8) by (auto simp: apart_def split: list.splits)
  have c9: "\<forall>oid x. order_map s' oid = Some x \<longrightarrow>
             order_id (h' x) = oid
             \<and> x \<in> set (ladder_refs (own sd s)) \<union> set (orders lvl') \<union> set (ladder_refs rest)"
  proof (intro allI impI)
    fix oid x assume om: "order_map s' oid = Some x"
    then have om0: "order_map s oid = Some x"
      by (auto simp: s'(4) umap_erase_def split: if_splits)
    with I(9) have a: "order_id (heap s x) = oid"
      and b: "x \<in> set (ladder_refs (own sd s)) \<union> set (orders lvl) \<union> set (ladder_refs rest)"
      by auto
    have "x \<in> set (ladder_refs (own sd s)) \<union> set (orders lvl') \<union> set (ladder_refs rest)"
    proof (cases "q = get_remaining_qty (heap s r)")
      case False
      with b lvl'(3) ord show ?thesis by simp
    next
      case True
      with om have "oid \<noteq> order_id (heap s r)"
        by (auto simp: s'(4) umap_erase_def split: if_splits)
      with a have "x \<noteq> r" by auto
      with b True lvl'(3) ord show ?thesis by auto
    qed
    with a ids show "order_id (h' x) = oid
             \<and> x \<in> set (ladder_refs (own sd s)) \<union> set (orders lvl') \<union> set (ladder_refs rest)"
      by simp
  qed
  have c11: "incoming \<notin> set (ladder_refs (own sd s)) \<union> set (orders lvl') \<union> set (ladder_refs rest)"
    using I(11) sub by auto
  have c12: "incoming_ok (h' incoming)"
    using incoming_ok_filled_by[OF fr(2) qi q0] hi by simp
  show ?thesis
    unfolding level_inv_unfold s' 
    using I(1) c1 c3 c4 c5 c6 c7 c8 c9 I(10) c11 c12 s'(4)
    by simp
qed

lemma pml_stop:
  "level_empty lvl \<or> get_remaining_qty (heap s incoming) = 0 \<Longrightarrow>
   process_matches_at_level s incoming lvl tp trades = Inr (s, lvl, trades)"
  by (auto simp: process_matches_at_level.simps[of s incoming lvl] word_greater_zero_iff)

lemma pml_step:
  assumes "orders lvl = r # qs" and "get_remaining_qty (heap s incoming) \<noteq> 0"
    and "match_front s incoming lvl tp r = Inr (s1, lvl1, t)"
  shows "process_matches_at_level s incoming lvl tp trades =
         process_matches_at_level s1 incoming lvl1 tp (trades @ [t])"
  using assms
  by (simp add: process_matches_at_level.simps[of s incoming lvl] level_empty_def
      get_front_order_def word_greater_zero_iff)

lemma match_front_succeeds:
  assumes inv: "level_inv sd k rest incoming s lvl" and ord: "orders lvl = r # qs"
    and ir: "get_remaining_qty (heap s incoming) \<noteq> 0"
  shows "\<exists>s1 lvl1 t. match_front s incoming lvl tp r = Inr (s1, lvl1, t)"
  using match_front_ok[OF level_inv_front(1,2)[OF inv ord] ir level_inv_front(4,5)[OF inv ord] ord refl]
  by blast

lemma pml_succeeds:
  "level_inv sd k rest incoming s lvl \<Longrightarrow>
   \<exists>s' lvl' trades'. process_matches_at_level s incoming lvl tp trades = Inr (s', lvl', trades')"
proof (induction s incoming lvl tp trades rule: process_matches_at_level.induct)
  case (1 s incoming lvl tp trades)
  show ?case
  proof (cases "level_empty lvl \<or> get_remaining_qty (heap s incoming) = 0")
    case True
    then show ?thesis by (simp add: pml_stop)
  next
    case False
    then obtain r qs where ord: "orders lvl = r # qs"
      by (cases "orders lvl") (auto simp: level_empty_def)
    from False have ir: "get_remaining_qty (heap s incoming) \<noteq> 0" by simp
    from match_front_succeeds[OF "1.prems" ord ir] obtain s1 lvl1 t
      where mf: "match_front s incoming lvl tp r = Inr (s1, lvl1, t)" by blast
    have g: "\<not> level_empty lvl \<and> 0 < get_remaining_qty (heap s incoming)"
      using False by (simp add: word_greater_zero_iff)
    have fr: "get_front_order lvl = Some r" using ord by (simp add: get_front_order_def)
    from "1.IH"(2)[OF g fr mf refl refl match_front_level_inv[OF "1.prems" ord ir mf]]
    show ?thesis by (simp add: pml_step[OF ord ir mf])
  qed
qed

lemma pml_induct [consumes 2, case_names stop step]:
  assumes inv: "level_inv sd k rest incoming s lvl"
    and res: "process_matches_at_level s incoming lvl tp trades = Inr (s', lvl', trades')"
    and stop: "\<And>s lvl trades. level_inv sd k rest incoming s lvl \<Longrightarrow>
                 level_empty lvl \<or> get_remaining_qty (heap s incoming) = 0 \<Longrightarrow>
                 Q s lvl trades s lvl trades"
    and step: "\<And>s lvl trades r qs s1 lvl1 t s' lvl' trades'.
                 level_inv sd k rest incoming s lvl \<Longrightarrow> orders lvl = r # qs \<Longrightarrow>
                 get_remaining_qty (heap s incoming) \<noteq> 0 \<Longrightarrow>
                 match_front s incoming lvl tp r = Inr (s1, lvl1, t) \<Longrightarrow>
                 level_inv sd k rest incoming s1 lvl1 \<Longrightarrow>
                 process_matches_at_level s1 incoming lvl1 tp (trades @ [t]) = Inr (s', lvl', trades') \<Longrightarrow>
                 Q s1 lvl1 (trades @ [t]) s' lvl' trades' \<Longrightarrow>
                 Q s lvl trades s' lvl' trades'"
  shows "Q s lvl trades s' lvl' trades'"
  using inv res stop step
proof (induction s incoming lvl tp trades rule: process_matches_at_level.induct)
  case (1 s incoming lvl tp trades)
  note inv = "1.prems"(1) and res = "1.prems"(2) and stop = "1.prems"(3) and step = "1.prems"(4)
  show ?case
  proof (cases "level_empty lvl \<or> get_remaining_qty (heap s incoming) = 0")
    case True
    with res stop[OF inv True, of trades] show ?thesis
      by (simp add: pml_stop)
  next
    case False
    then obtain r qs where ord: "orders lvl = r # qs"
      by (cases "orders lvl") (auto simp: level_empty_def)
    from False have ir: "get_remaining_qty (heap s incoming) \<noteq> 0" by simp
    from match_front_succeeds[OF inv ord ir] obtain s1 lvl1 t
      where mf: "match_front s incoming lvl tp r = Inr (s1, lvl1, t)" by blast
    have g: "\<not> level_empty lvl \<and> 0 < get_remaining_qty (heap s incoming)"
      using False by (simp add: word_greater_zero_iff)
    have fr: "get_front_order lvl = Some r" using ord by (simp add: get_front_order_def)
    note inv1 = match_front_level_inv[OF inv ord ir mf]
    from res have rec: "process_matches_at_level s1 incoming lvl1 tp (trades @ [t]) = Inr (s', lvl', trades')"
      by (simp add: pml_step[OF ord ir mf])
    have "Q s1 lvl1 (trades @ [t]) s' lvl' trades'"
      by (rule "1.IH"(2)[OF g fr mf refl refl inv1 rec stop step])
    from step[OF inv ord ir mf inv1 rec this] show ?thesis .
  qed
qed

lemma pml_level_inv:
  assumes "level_inv sd k rest incoming s lvl"
    and "process_matches_at_level s incoming lvl tp trades = Inr (s', lvl', trades')"
  shows "level_inv sd k rest incoming s' lvl'"
  using assms by (induction rule: pml_induct) simp_all

lemma match_inv_level_inv:
  "opposite sd s = (k, lvl) # rest \<Longrightarrow> level_inv sd k rest incoming s lvl = match_inv s incoming"
  by (simp add: level_inv_def set_opposite_same)

lemma sorted_apart_tail:
  assumes "ladder_sorted (side_cmp (other_side sd)) ((k, lvl) # rest)"
    and "apart sd m ((k, lvl) # rest)"
  shows "apart sd m rest"
proof (cases m)
  case Nil
  then show ?thesis by (simp add: apart_def)
next
  case (Cons pl m')
  obtain p l where pl: "pl = (p, l)" by (cases pl)
  show ?thesis
  proof (cases rest)
    case Nil
    then show ?thesis by (simp add: apart_def Cons pl)
  next
    case (Cons kl2 rest')
    obtain k2 l2 where kl2: "kl2 = (k2, l2)" by (cases kl2)
    from assms(1) Cons kl2 have "side_cmp (other_side sd) k k2"
      by (simp add: ladder_sorted_def)
    moreover from assms(2) \<open>m = pl # m'\<close> pl have "\<not> price_crosses sd p k"
      by (simp add: apart_def)
    ultimately have "\<not> price_crosses sd p k2"
      by (cases sd) (auto simp: side_cmp_def other_side_def price_crosses_def greater_def less_def)
    with Cons kl2 \<open>m = pl # m'\<close> pl show ?thesis by (simp add: apart_def)
  qed
qed

lemma level_inv_drop_empty:
  assumes "level_inv sd k rest incoming s lvl" and "level_empty lvl"
  shows "match_inv (set_opposite sd rest s) incoming"
proof -
  from assms(2) have e: "orders lvl = []" by (simp add: level_empty_def)
  from assms(1) have a: "ladder_sorted (side_cmp (other_side sd)) ((k, lvl) # rest)"
    and b: "apart sd (own sd s) ((k, lvl) # rest)"
    by (simp_all add: level_inv_unfold)
  from a have "ladder_sorted (side_cmp (other_side sd)) rest"
    by (simp add: ladder_sorted_def)
  with assms(1) e sorted_apart_tail[OF a b] show ?thesis
    unfolding match_inv_def book_inv_side[of _ sd] side_inv_def set_book_refs[of _ sd]
    by (simp add: level_inv_unfold)
qed

definition next_book :: "Side \<Rightarrow> real \<Rightarrow> PriceLevel \<Rightarrow> ladder \<Rightarrow> OrderBook \<Rightarrow> OrderBook" where
  "next_book sd k lvl rest s =
     set_opposite sd (if level_empty lvl then rest else (k, lvl) # rest) s"

lemma level_inv_next_book:
  "level_inv sd k rest incoming s lvl \<Longrightarrow> match_inv (next_book sd k lvl rest s) incoming"
  by (auto simp: next_book_def level_inv_drop_empty) (simp add: level_inv_def)

lemma match_loop_stop:
  "opposite sd s = [] \<or> get_remaining_qty (heap s incoming) = 0
   \<or> (\<exists>k lvl rest. opposite sd s = (k, lvl) # rest \<and> order_type (heap s incoming) \<noteq> MARKET
         \<and> \<not> price_crosses sd (order_price (heap s incoming)) k) \<Longrightarrow>
   match_loop sd s incoming trades = Inr (s, trades)"
  by (auto simp: match_loop.simps[of sd s incoming] word_greater_zero_iff split: list.splits)

lemma match_loop_step:
  assumes "opposite sd s = (k, best) # rest" and "get_remaining_qty (heap s incoming) \<noteq> 0"
    and "order_type (heap s incoming) = MARKET \<or> price_crosses sd (order_price (heap s incoming)) k"
    and "process_matches_at_level s incoming best k trades = Inr (s1, lvl1, trades1)"
  shows "match_loop sd s incoming trades = match_loop sd (next_book sd k lvl1 rest s1) incoming trades1"
  using assms
  by (simp add: match_loop.simps[of sd s incoming] word_greater_zero_iff next_book_def)

definition match_stops :: "Side \<Rightarrow> OrderBook \<Rightarrow> ref \<Rightarrow> bool" where
  "match_stops sd s incoming =
     (case opposite sd s of
        [] \<Rightarrow> True
      | (k, lvl) # rest \<Rightarrow>
          get_remaining_qty (heap s incoming) = 0
          \<or> (order_type (heap s incoming) \<noteq> MARKET
              \<and> \<not> price_crosses sd (order_price (heap s incoming)) k))"

lemma match_loop_induct [consumes 2, case_names stop step]:
  assumes inv: "match_inv s incoming"
    and res: "match_loop sd s incoming trades = Inr (s', trades')"
    and stop: "\<And>s trades. match_inv s incoming \<Longrightarrow> match_stops sd s incoming \<Longrightarrow> Q s trades s trades"
    and step: "\<And>s trades k best rest s1 lvl1 trades1 s' trades'.
                 match_inv s incoming \<Longrightarrow> opposite sd s = (k, best) # rest \<Longrightarrow>
                 get_remaining_qty (heap s incoming) \<noteq> 0 \<Longrightarrow>
                 order_type (heap s incoming) = MARKET
                   \<or> price_crosses sd (order_price (heap s incoming)) k \<Longrightarrow>
                 level_inv sd k rest incoming s best \<Longrightarrow>
                 process_matches_at_level s incoming best k trades = Inr (s1, lvl1, trades1) \<Longrightarrow>
                 level_inv sd k rest incoming s1 lvl1 \<Longrightarrow>
                 match_inv (next_book sd k lvl1 rest s1) incoming \<Longrightarrow>
                 match_loop sd (next_book sd k lvl1 rest s1) incoming trades1 = Inr (s', trades') \<Longrightarrow>
                 Q (next_book sd k lvl1 rest s1) trades1 s' trades' \<Longrightarrow>
                 Q s trades s' trades'"
  shows "Q s trades s' trades'"
  using inv res stop step
proof (induction sd s incoming trades rule: match_loop.induct)
  case (1 sd s incoming trades)
  note inv = "1.prems"(1) and res = "1.prems"(2) and stop = "1.prems"(3) and step = "1.prems"(4)
  show ?case
  proof (cases "match_stops sd s incoming")
    case True
    then have "match_loop sd s incoming trades = Inr (s, trades)"
      by (intro match_loop_stop) (auto simp: match_stops_def split: list.splits)
    with res stop[OF inv True, of trades] show ?thesis by simp
  next
    case False
    then obtain k best rest where opp: "opposite sd s = (k, best) # rest"
      and ir: "get_remaining_qty (heap s incoming) \<noteq> 0"
      and cr: "order_type (heap s incoming) = MARKET
                   \<or> price_crosses sd (order_price (heap s incoming)) k"
      by (auto simp: match_stops_def split: list.splits)
    from inv opp have li: "level_inv sd k rest incoming s best"
      by (simp add: match_inv_level_inv)
    from pml_succeeds[OF li] obtain s1 lvl1 trades1
      where pm: "process_matches_at_level s incoming best k trades = Inr (s1, lvl1, trades1)"
      by blast
    note li1 = pml_level_inv[OF li pm]
    note mi1 = level_inv_next_book[OF li1]
    from res have rec: "match_loop sd (next_book sd k lvl1 rest s1) incoming trades1 = Inr (s', trades')"
      by (simp add: match_loop_step[OF opp ir cr pm])
    have g: "0 < get_remaining_qty (heap s incoming)"
      using ir by (simp add: word_greater_zero_iff)
    have "Q (next_book sd k lvl1 rest s1) trades1 s' trades'"
      by (rule "1.IH"[OF opp refl g cr pm refl refl mi1[unfolded next_book_def]
            rec[unfolded next_book_def] stop step, folded next_book_def])
    from step[OF inv opp ir cr li pm li1 mi1 rec this] show ?thesis .
  qed
qed

text \<open>
  What matching leaves alone: the counters other than \<^verbatim>\<open>next_trade_id_\<close>, every field of
  an order but \<^verbatim>\<open>filled_qty_\<close> and \<^verbatim>\<open>status_\<close>, every order other than the incoming one and
  those in \<open>refs\<close>; the index only loses entries.
\<close>

definition same_static :: "Order \<Rightarrow> Order \<Rightarrow> bool" where
  "same_static od od' =
     (order_id od' = order_id od \<and> order_price od' = order_price od
      \<and> order_quantity od' = order_quantity od \<and> order_side od' = order_side od
      \<and> order_type od' = order_type od)"

definition loop_frame :: "ref \<Rightarrow> ref list \<Rightarrow> OrderBook \<Rightarrow> OrderBook \<Rightarrow> bool" where
  "loop_frame incoming refs s s' =
     (heap_top s' = heap_top s \<and> next_order_id s' = next_order_id s
      \<and> total_trades s' = total_trades s \<and> total_volume s' = total_volume s
      \<and> (\<forall>r. same_static (heap s r) (heap s' r))
      \<and> (\<forall>r. r \<noteq> incoming \<longrightarrow> r \<notin> set refs \<longrightarrow> heap s' r = heap s r)
      \<and> (\<forall>oid r. order_map s' oid = Some r \<longrightarrow> order_map s oid = Some r))"

lemma loop_frame_refl: "loop_frame incoming refs s s"
  by (simp add: loop_frame_def same_static_def)

lemma loop_frame_trans:
  assumes "loop_frame incoming refs s s1" and "loop_frame incoming refs1 s1 s'"
    and "set refs1 \<subseteq> set refs"
  shows "loop_frame incoming refs s s'"
  using assms unfolding loop_frame_def same_static_def
  by (auto simp: subset_iff)

lemma same_static_filled_by: "same_static od (filled_by q od)"
  by (simp add: same_static_def)

lemma match_front_frame:
  assumes inv: "level_inv sd k rest incoming s lvl" and ord: "orders lvl = r # qs"
    and ir: "get_remaining_qty (heap s incoming) \<noteq> 0"
    and mf: "match_front s incoming lvl tp r = Inr (s', lvl', t)"
  shows "loop_frame incoming (orders lvl) s s'" and "bids s' = bids s" and "asks s' = asks s"
    and "set (orders lvl') \<subseteq> set (orders lvl)"
proof -
  note fr = level_inv_front[OF inv ord]
  note ok = match_front_ok[OF fr(1) fr(2) ir fr(4) fr(5) ord refl, of tp]
  from ok mf show "bids s' = bids s" and "asks s' = asks s"
    and "set (orders lvl') \<subseteq> set (orders lvl)"
    using ord by auto
  from ok mf show "loop_frame incoming (orders lvl) s s'"
    using ord
    by (auto simp: loop_frame_def store_def same_static_def umap_erase_def split: if_splits)
qed

lemma pml_frame:
  assumes "level_inv sd k rest incoming s lvl"
    and "process_matches_at_level s incoming lvl tp trades = Inr (s', lvl', trades')"
  shows "loop_frame incoming (orders lvl) s s' \<and> bids s' = bids s \<and> asks s' = asks s
         \<and> set (orders lvl') \<subseteq> set (orders lvl)"
  using assms
proof (induction rule: pml_induct)
  case (stop s lvl trades)
  then show ?case by (simp add: loop_frame_refl)
next
  case (step s lvl trades r qs s1 lvl1 t s' lvl' trades')
  note mf = match_front_frame[OF step(1,2,3,4)]
  from step(7) mf loop_frame_trans[OF mf(1) _ mf(4)] show ?case by auto
qed

lemma pml_exit:
  assumes "level_inv sd k rest incoming s lvl"
    and "process_matches_at_level s incoming lvl tp trades = Inr (s', lvl', trades')"
  shows "level_empty lvl' \<or> get_remaining_qty (heap s' incoming) = 0"
  using assms(2) by (rule process_matches_at_level_exit)

lemma next_book_simps [simp]:
  "heap (next_book sd k lvl rest s) = heap s"
  "heap_top (next_book sd k lvl rest s) = heap_top s"
  "order_map (next_book sd k lvl rest s) = order_map s"
  "next_order_id (next_book sd k lvl rest s) = next_order_id s"
  "next_trade_id (next_book sd k lvl rest s) = next_trade_id s"
  "total_trades (next_book sd k lvl rest s) = total_trades s"
  "total_volume (next_book sd k lvl rest s) = total_volume s"
  "own sd (next_book sd k lvl rest s) = own sd s"
  "opposite sd (next_book sd k lvl rest s) = (if level_empty lvl then rest else (k, lvl) # rest)"
  by (simp_all add: next_book_def)

lemma own_pml:
  "bids s' = bids s \<Longrightarrow> asks s' = asks s \<Longrightarrow> own sd s' = own sd s"
  by (simp add: own_def)

lemma match_loop_frame:
  assumes "match_inv s incoming"
    and "match_loop sd s incoming trades = Inr (s', trades')"
  shows "loop_frame incoming (ladder_refs (opposite sd s)) s s' \<and> own sd s' = own sd s
         \<and> set (ladder_refs (opposite sd s')) \<subseteq> set (ladder_refs (opposite sd s))"
  using assms
proof (induction rule: match_loop_induct)
  case (stop s trades)
  then show ?case by (simp add: loop_frame_refl)
next
  case (step s trades k best rest s1 lvl1 trades1 s' trades')
  note pf = pml_frame[OF step(5,6)]
  let ?nb = "next_book sd k lvl1 rest s1"
  from pf have a: "loop_frame incoming (ladder_refs (opposite sd s)) s ?nb"
    using step(2) by (auto simp: loop_frame_def)
  from pf have sub: "set (ladder_refs (opposite sd ?nb)) \<subseteq> set (ladder_refs (opposite sd s))"
    using step(2) by (auto simp: level_empty_def)
  from step(10) have b: "loop_frame incoming (ladder_refs (opposite sd ?nb)) ?nb s'"
    and c: "own sd s' = own sd ?nb"
    and d: "set (ladder_refs (opposite sd s')) \<subseteq> set (ladder_refs (opposite sd ?nb))"
    by simp_all
  from pf have "own sd s1 = own sd s" by (intro own_pml) simp_all
  then have e: "own sd ?nb = own sd s" by simp
  from d sub have f: "set (ladder_refs (opposite sd s')) \<subseteq> set (ladder_refs (opposite sd s))"
    by (rule subset_trans)
  from loop_frame_trans[OF a b sub] c e f show ?case by simp
qed

lemma match_loop_inv:
  assumes "match_inv s incoming"
    and "match_loop sd s incoming trades = Inr (s', trades')"
  shows "match_inv s' incoming \<and> match_stops sd s' incoming"
  using assms by (induction rule: match_loop_induct) simp_all

lemma match_loop_succeeds:
  "match_inv s incoming \<Longrightarrow> \<exists>s' trades'. match_loop sd s incoming trades = Inr (s', trades')"
proof (induction sd s incoming trades rule: match_loop.induct)
  case (1 sd s incoming trades)
  show ?case
  proof (cases "match_stops sd s incoming")
    case True
    then have "match_loop sd s incoming trades = Inr (s, trades)"
      by (intro match_loop_stop) (auto simp: match_stops_def split: list.splits)
    then show ?thesis by simp
  next
    case False
    then obtain k best rest where opp: "opposite sd s = (k, best) # rest"
      and ir: "get_remaining_qty (heap s incoming) \<noteq> 0"
      and cr: "order_type (heap s incoming) = MARKET
                   \<or> price_crosses sd (order_price (heap s incoming)) k"
      by (auto simp: match_stops_def split: list.splits)
    from "1.prems" opp have li: "level_inv sd k rest incoming s best"
      by (simp add: match_inv_level_inv)
    from pml_succeeds[OF li] obtain s1 lvl1 trades1
      where pm: "process_matches_at_level s incoming best k trades = Inr (s1, lvl1, trades1)"
      by blast
    note mi1 = level_inv_next_book[OF pml_level_inv[OF li pm]]
    have g: "0 < get_remaining_qty (heap s incoming)"
      using ir by (simp add: word_greater_zero_iff)
    from "1.IH"[OF opp refl g cr pm refl refl mi1[unfolded next_book_def]]
    show ?thesis
      by (simp add: match_loop_step[OF opp ir cr pm] next_book_def)
  qed
qed

section \<open>Ladder lemmas\<close>

definition strict_linear :: "(real \<Rightarrow> real \<Rightarrow> bool) \<Rightarrow> bool" where
  "strict_linear cmp =
     ((\<forall>a b c. cmp a b \<longrightarrow> cmp b c \<longrightarrow> cmp a c)
      \<and> (\<forall>a b. a \<noteq> b \<longrightarrow> \<not> cmp a b \<longrightarrow> cmp b a) \<and> (\<forall>a. \<not> cmp a a))"

lemma strict_linear_side_cmp: "strict_linear (side_cmp sd)"
  by (auto simp: strict_linear_def side_cmp_def greater_def less_def)

lemma strict_linear_greater: "strict_linear greater"
  by (auto simp: strict_linear_def greater_def)

lemma strict_linear_less: "strict_linear less"
  by (auto simp: strict_linear_def less_def)

lemma sorted_key_absent:
  assumes "strict_linear cmp" and "sorted_wrt cmp (k # map fst m)" and "cmp p k"
  shows "map_of m p = None"
proof -
  have "p \<notin> fst ` set m"
  proof
    assume "p \<in> fst ` set m"
    with assms(2) have "cmp k p" by auto
    with assms(1,3) show False unfolding strict_linear_def by blast
  qed
  then show ?thesis by (simp add: map_of_eq_None_iff)
qed

lemma map_find_map_assign: "map_find (map_assign cmp p v m) p = Some v"
  by (induction m) (auto simp: map_find_def)

abbreviation add_to :: "heap \<Rightarrow> ref \<Rightarrow> PriceLevel \<Rightarrow> PriceLevel" where
  "add_to h od \<equiv> level_add_order h (Some od)"

lemma ladder_insert_Nil:
  "ladder_insert cmp h p od [] = [(p, add_to h od (PriceLevel_ctor p))]"
  by (simp add: ladder_insert_def map_find_def map_index_def)

lemma ladder_insert_Cons:
  assumes "strict_linear cmp" and "sorted_wrt cmp (k # map fst m)"
  shows "ladder_insert cmp h p od ((k, v) # m) =
     (if p = k then (k, add_to h od v) # m
      else if cmp p k then (p, add_to h od (PriceLevel_ctor p)) # (k, v) # m
      else (k, v) # ladder_insert cmp h p od m)"
proof (cases "p = k")
  case True
  then show ?thesis by (simp add: ladder_insert_def map_find_def map_index_def)
next
  case False
  show ?thesis
  proof (cases "cmp p k")
    case True
    from sorted_key_absent[OF assms True] False True show ?thesis
      by (simp add: ladder_insert_def map_find_def map_index_def)
  next
    case nc: False
    show ?thesis
    proof (cases "map_of m p")
      case None
      with False nc show ?thesis
        using map_find_map_assign[of cmp p "PriceLevel_ctor p" m]
        by (simp add: ladder_insert_def map_find_def map_index_def)
    next
      case (Some a)
      with False nc show ?thesis
        by (simp add: ladder_insert_def map_find_def map_index_def)
    qed
  qed
qed

lemma level_ok_ctor: "level_ok h sd p (PriceLevel_ctor p)"
  by (simp add: level_ok_def PriceLevel_ctor_def)

lemma level_sum_append [simp]: "level_sum h (q @ q') = level_sum h q + level_sum h q'"
  by (simp add: level_sum_def)

lemma level_ok_add:
  "level_ok h sd p lvl \<Longrightarrow> resting_ok h sd p od \<Longrightarrow> level_ok h sd p (add_to h od lvl)"
  by (simp add: level_ok_def level_add_order_def)

lemma orders_add_to [simp]: "orders (add_to h od lvl) = orders lvl @ [od]"
  by (simp add: level_add_order_def)

lemma orders_ctor [simp]: "orders (PriceLevel_ctor p) = []"
  by (simp add: PriceLevel_ctor_def)

lemma ladder_insert_props:
  assumes sl: "strict_linear cmp"
  shows "sorted_wrt cmp (map fst m) \<Longrightarrow> ladder_ok h sd m \<Longrightarrow> resting_ok h sd p od \<Longrightarrow>
     sorted_wrt cmp (map fst (ladder_insert cmp h p od m))
     \<and> ladder_ok h sd (ladder_insert cmp h p od m)
     \<and> set (ladder_refs (ladder_insert cmp h p od m)) = insert od (set (ladder_refs m))
     \<and> (distinct (ladder_refs m) \<longrightarrow> od \<notin> set (ladder_refs m) \<longrightarrow>
          distinct (ladder_refs (ladder_insert cmp h p od m)))
     \<and> fst ` set (ladder_insert cmp h p od m) = insert p (fst ` set m)"
proof (induction m)
  case Nil
  then show ?case
    by (simp add: ladder_insert_Nil level_ok_add level_ok_ctor)
next
  case (Cons kv m)
  obtain k v where kv: "kv = (k, v)" by (cases kv)
  from Cons.prems kv have so: "sorted_wrt cmp (k # map fst m)" by simp
  note eq = ladder_insert_Cons[OF sl so, of h p od v]
  show ?case
  proof (cases "p = k")
    case True
    with Cons.prems kv eq show ?thesis
      by (auto simp: level_ok_add)
  next
    case False
    show ?thesis
    proof (cases "cmp p k")
      case True
      from so True sl have "\<forall>x\<in>set (map fst m). cmp p x"
        unfolding strict_linear_def by (metis sorted_wrt.simps(2))
      with True False Cons.prems kv eq show ?thesis
        by (auto simp: level_ok_add level_ok_ctor)
    next
      case nc: False
      from sl False nc have kp: "cmp k p" unfolding strict_linear_def by blast
      from Cons.prems kv have pre: "sorted_wrt cmp (map fst m)" "ladder_ok h sd m" by simp_all
      note IH = Cons.IH[OF pre Cons.prems(3)]
      from IH have keys: "fst ` set (ladder_insert cmp h p od m) = insert p (fst ` set m)" by simp
      from so kp keys have "\<forall>x\<in>set (map fst (ladder_insert cmp h p od m)). cmp k x"
        by auto
      with False nc Cons.prems kv eq IH show ?thesis
        by auto
    qed
  qed
qed

lemma ladder_insert_head:
  assumes "strict_linear cmp" and "sorted_wrt cmp (map fst m)"
  shows "\<exists>l m'. ladder_insert cmp h p od m = (p, l) # m'
           \<or> (\<exists>k v ms. m = (k, v) # ms \<and> ladder_insert cmp h p od m = (k, l) # m')"
proof (cases m)
  case Nil
  then show ?thesis by (simp add: ladder_insert_Nil)
next
  case (Cons kv ms)
  obtain k v where kv: "kv = (k, v)" by (cases kv)
  from assms(2) Cons kv have so: "sorted_wrt cmp (k # map fst ms)" by simp
  from ladder_insert_Cons[OF assms(1) so, of h p od v] Cons kv show ?thesis
    by auto
qed

lemma insert_resting_simps [simp]:
  "own sd (insert_resting s oid od p sd) = ladder_insert (side_cmp sd) (heap s) p od (own sd s)"
  "opposite sd (insert_resting s oid od p sd) = opposite sd s"
  "heap (insert_resting s oid od p sd) = heap s"
  "heap_top (insert_resting s oid od p sd) = heap_top s"
  "order_map (insert_resting s oid od p sd) = umap_assign (order_map s) oid od"
  "next_order_id (insert_resting s oid od p sd) = next_order_id s"
  "next_trade_id (insert_resting s oid od p sd) = next_trade_id s"
  "total_trades (insert_resting s oid od p sd) = total_trades s"
  "total_volume (insert_resting s oid od p sd) = total_volume s"
  by (cases sd; simp add: insert_resting_def own_def opposite_def side_cmp_def Let_def)+

lemma insert_resting_book_inv:
  assumes mi: "match_inv s incoming" and ms: "match_stops sd s incoming"
    and sd: "order_side (heap s incoming) = sd" and p: "order_price (heap s incoming) = p"
    and ty: "order_type (heap s incoming) = LIMIT"
    and ir: "get_remaining_qty (heap s incoming) \<noteq> 0"
    and oid: "oid = order_id (heap s incoming)"
  shows "book_inv (insert_resting s oid incoming p sd)"
proof -
  let ?s' = "insert_resting s oid incoming p sd"
  let ?m' = "ladder_insert (side_cmp sd) (heap s) p incoming (own sd s)"
  from mi have bi: "side_inv sd s" and lt: "incoming < heap_top s"
    and fresh: "incoming \<notin> set (ladder_refs (own sd s)) \<union> set (ladder_refs (opposite sd s))"
    and io: "incoming_ok (heap s incoming)"
    by (simp_all add: match_inv_def book_inv_side[of _ sd] set_book_refs[of _ sd])
  from io ir have "live (heap s incoming)" "filled_qty (heap s incoming) < order_quantity (heap s incoming)"
    by (auto simp: incoming_ok_def remaining_zero_iff)
  with sd p ty have ro: "resting_ok (heap s) sd p incoming"
    by (simp add: resting_ok_def)
  from bi have so: "sorted_wrt (side_cmp sd) (map fst (own sd s))"
    and lo: "ladder_ok (heap s) sd (own sd s)"
    by (simp_all add: side_inv_def ladder_sorted_def)
  note props = ladder_insert_props[OF strict_linear_side_cmp so lo ro]
  from bi fresh have di: "distinct (ladder_refs (own sd s))"
    by (simp add: side_inv_def)
  have ap: "apart sd ?m' (opposite sd s)"
  proof (cases "opposite sd s")
    case Nil
    then show ?thesis by (simp add: apart_def split: list.splits prod.splits)
  next
    case (Cons kl rest)
    obtain k l where kl: "kl = (k, l)" by (cases kl)
    from ms Cons kl ir ty have nc: "\<not> price_crosses sd (order_price (heap s incoming)) k"
      by (simp add: match_stops_def)
    from bi Cons kl have old: "apart sd (own sd s) ((k, l) # rest)"
      by (simp add: side_inv_def)
    from ladder_insert_head[OF strict_linear_side_cmp so, of "heap s" p incoming]
    show ?thesis using nc old p Cons kl
      by (auto simp: apart_def)
  qed
  have ix: "\<forall>i r. umap_assign (order_map s) oid incoming i = Some r \<longrightarrow>
             order_id (heap s r) = i \<and> r \<in> set (ladder_refs ?m') \<union> set (ladder_refs (opposite sd s))"
    using bi props oid by (auto simp: side_inv_def umap_assign_def)
  show ?thesis
    unfolding book_inv_side[of _ sd] side_inv_def
    using bi props fresh di ap ix lt
    by (auto simp: side_inv_def ladder_sorted_def list_all_iff)
qed

section \<open>The public operations keep the book well formed\<close>

text \<open>The book right after \<^verbatim>\<open>std::make_shared<Order>(next_order_id_++, ...)\<close> has succeeded.\<close>

definition new_order :: "u64 \<Rightarrow> real \<Rightarrow> u64 \<Rightarrow> Side \<Rightarrow> OrderType \<Rightarrow> Order" where
  "new_order oid p qty sd ty =
     \<lparr>order_id = oid, order_price = p, order_quantity = qty, filled_qty = 0,
      order_side = sd, order_type = ty, order_status = NEW\<rparr>"

definition with_new_order :: "OrderBook \<Rightarrow> real \<Rightarrow> u64 \<Rightarrow> Side \<Rightarrow> OrderType \<Rightarrow> OrderBook" where
  "with_new_order s p qty sd ty =
     s\<lparr>next_order_id := next_order_id s + 1,
       heap := store (heap s) (heap_top s) (new_order (next_order_id s) p qty sd ty),
       heap_top := heap_top s + 1\<rparr>"

definition valid_params :: "real \<Rightarrow> u64 \<Rightarrow> OrderType \<Rightarrow> bool" where
  "valid_params p qty ty = (qty \<noteq> 0 \<and> \<not> p < 0 \<and> \<not> (ty = LIMIT \<and> p \<le> 0))"

lemma make_shared_Order_valid:
  "valid_params p qty ty \<Longrightarrow>
   make_shared_Order (s\<lparr>next_order_id := next_order_id s + 1\<rparr>) (next_order_id s) p qty sd ty =
     Inr (heap_top s, with_new_order s p qty sd ty)"
  by (simp add: make_shared_Order_def Order_ctor_def valid_params_def with_new_order_def new_order_def)

lemma with_new_order_simps [simp]:
  "bids (with_new_order s p qty sd ty) = bids s"
  "asks (with_new_order s p qty sd ty) = asks s"
  "order_map (with_new_order s p qty sd ty) = order_map s"
  "next_order_id (with_new_order s p qty sd ty) = next_order_id s + 1"
  "next_trade_id (with_new_order s p qty sd ty) = next_trade_id s"
  "total_trades (with_new_order s p qty sd ty) = total_trades s"
  "total_volume (with_new_order s p qty sd ty) = total_volume s"
  "heap_top (with_new_order s p qty sd ty) = heap_top s + 1"
  "heap (with_new_order s p qty sd ty) (heap_top s) = new_order (next_order_id s) p qty sd ty"
  "r \<noteq> heap_top s \<Longrightarrow> heap (with_new_order s p qty sd ty) r = heap s r"
  "book_refs (with_new_order s p qty sd ty) = book_refs s"
  "get_best_bid (with_new_order s p qty sd ty) = get_best_bid s"
  "get_best_ask (with_new_order s p qty sd ty) = get_best_ask s"
  "own sd' (with_new_order s p qty sd ty) = own sd' s"
  "opposite sd' (with_new_order s p qty sd ty) = opposite sd' s"
  by (simp_all add: with_new_order_def store_def book_refs_def get_best_bid_def get_best_ask_def
      own_def opposite_def)

lemma new_order_simps [simp]:
  "order_id (new_order oid p qty sd ty) = oid"
  "order_price (new_order oid p qty sd ty) = p"
  "order_quantity (new_order oid p qty sd ty) = qty"
  "filled_qty (new_order oid p qty sd ty) = 0"
  "order_side (new_order oid p qty sd ty) = sd"
  "order_type (new_order oid p qty sd ty) = ty"
  "order_status (new_order oid p qty sd ty) = NEW"
  "get_remaining_qty (new_order oid p qty sd ty) = qty"
  by (simp_all add: new_order_def get_remaining_qty_def)

lemma uncrossed_alt:
  "uncrossed s = (\<forall>b a. get_best_bid s = Some b \<longrightarrow> get_best_ask s = Some a \<longrightarrow> b < a)"
  by (auto simp: uncrossed_def split: option.splits)

lemma with_new_order_match_inv:
  assumes "book_inv s"
  shows "match_inv (with_new_order s p qty sd ty) (heap_top s)"
proof -
  let ?s1 = "with_new_order s p qty sd ty"
  from assms have lt: "\<forall>r\<in>set (book_refs s). r < heap_top s"
    by (simp add: book_inv_def list_all_iff)
  then have same: "\<forall>r\<in>set (book_refs s). heap ?s1 r = heap s r"
    by auto
  then have sb: "\<forall>r\<in>set (ladder_refs (bids s)). heap ?s1 r = heap s r"
    and sa: "\<forall>r\<in>set (ladder_refs (asks s)). heap ?s1 r = heap s r"
    by (simp_all add: book_refs_def)
  from lt have fresh: "heap_top s \<notin> set (book_refs s)" by auto
  have "book_inv ?s1"
    using assms ladder_ok_cong[OF sb, of BUY] ladder_ok_cong[OF sa, of SELL] same lt
    unfolding book_inv_def
    by (auto simp: uncrossed_alt index_ok_def list_all_iff less_Suc_eq)
  with fresh show ?thesis
    by (simp add: match_inv_def incoming_ok_def live_def)
qed

lemma match_order_eq:
  "match_order s (Some incoming) =
     (case match_loop (order_side (heap s incoming)) s incoming [] of
        Inl e \<Rightarrow> Inl e | Inr (s', trades) \<Rightarrow> Inr (trades, s'))"
  by (cases "order_side (heap s incoming)") (simp_all add: match_order_def)

lemma update_statistics_simps [simp]:
  "bids (update_statistics trades s) = bids s"
  "asks (update_statistics trades s) = asks s"
  "order_map (update_statistics trades s) = order_map s"
  "next_order_id (update_statistics trades s) = next_order_id s"
  "next_trade_id (update_statistics trades s) = next_trade_id s"
  "heap (update_statistics trades s) = heap s"
  "heap_top (update_statistics trades s) = heap_top s"
  "total_trades (update_statistics trades s) = total_trades s + of_nat (length trades)"
  "book_refs (update_statistics trades s) = book_refs s"
  "get_best_bid (update_statistics trades s) = get_best_bid s"
  "get_best_ask (update_statistics trades s) = get_best_ask s"
  by (simp_all add: update_statistics_def Let_def book_refs_def get_best_bid_def get_best_ask_def)

lemma fold_volume: "fold (\<lambda>trade v. v + trade_quantity trade) trades v = v + sum_list (map trade_quantity trades)"
  by (induction trades arbitrary: v) (simp_all add: add.assoc)

lemma total_volume_update_statistics [simp]:
  "total_volume (update_statistics trades s) = total_volume s + sum_list (map trade_quantity trades)"
  by (simp add: update_statistics_def Let_def fold_volume)

lemma book_inv_update_statistics [simp]: "book_inv (update_statistics trades s) = book_inv s"
  by (simp add: book_inv_def uncrossed_alt index_ok_def)

lemma match_inv_live:
  "match_inv s incoming \<Longrightarrow> get_remaining_qty (heap s incoming) \<noteq> 0 \<Longrightarrow>
   order_status (heap s incoming) \<noteq> CANCELLED"
  by (auto simp: match_inv_def incoming_ok_def remaining_zero_iff live_def)

lemma add_order_run_rejected:
  "\<not> valid_params p qty ty \<Longrightarrow> add_order_run s p qty sd ty = Inr (0, [], s)"
  by (auto simp: add_order_run_def valid_params_def)

text \<open>The book an accepted \<^verbatim>\<open>add_order\<close> leaves, given the book \<open>s2\<close> that matching left.\<close>

definition after_match :: "OrderBook \<Rightarrow> OrderBook \<Rightarrow> real \<Rightarrow> Side \<Rightarrow> OrderType \<Rightarrow> OrderBook" where
  "after_match s s2 p sd ty =
     (if get_remaining_qty (heap s2 (heap_top s)) \<noteq> 0 \<and> ty = LIMIT
      then insert_resting s2 (next_order_id s) (heap_top s) p sd else s2)"

lemma add_order_run_accepted:
  assumes bi: "book_inv s" and vp: "valid_params p qty ty"
  obtains s2 trades where
    "match_loop sd (with_new_order s p qty sd ty) (heap_top s) [] = Inr (s2, trades)"
    "add_order_run s p qty sd ty =
       Inr (next_order_id s, trades, update_statistics trades (after_match s s2 p sd ty))"
proof -
  let ?s1 = "with_new_order s p qty sd ty"
  note mi = with_new_order_match_inv[OF bi, of p qty sd ty]
  from match_loop_succeeds[OF mi, of sd "[]"] obtain s2 trades
    where ml: "match_loop sd ?s1 (heap_top s) [] = Inr (s2, trades)" by blast
  from match_loop_inv[OF mi ml] have mi2: "match_inv s2 (heap_top s)" by simp
  have "add_order_run s p qty sd ty =
       Inr (next_order_id s, trades, update_statistics trades (after_match s s2 p sd ty))"
    using vp make_shared_Order_valid[OF vp, of s sd] ml match_inv_live[OF mi2]
    by (auto simp: add_order_run_def valid_params_def match_order_eq after_match_def
        word_greater_zero_iff Let_def)
  with ml show ?thesis by (rule that)
qed

lemma add_market_order_zero: "add_market_order s 0 sd = Inr ([], s)"
  by (simp add: add_market_order_def)

lemma add_market_order_accepted:
  assumes bi: "book_inv s" and q: "qty \<noteq> 0"
  obtains s2 trades where
    "match_loop sd (with_new_order s 0 qty sd MARKET) (heap_top s) [] = Inr (s2, trades)"
    "add_market_order s qty sd = Inr (trades, update_statistics trades s2)"
proof -
  let ?s1 = "with_new_order s 0 qty sd MARKET"
  from q have vp: "valid_params 0 qty MARKET" by (simp add: valid_params_def)
  note mi = with_new_order_match_inv[OF bi, of 0 qty sd MARKET]
  from match_loop_succeeds[OF mi, of sd "[]"] obtain s2 trades
    where ml: "match_loop sd ?s1 (heap_top s) [] = Inr (s2, trades)" by blast
  have "add_market_order s qty sd = Inr (trades, update_statistics trades s2)"
    using q make_shared_Order_valid[OF vp, of s sd] ml
    by (simp add: add_market_order_def match_order_eq)
  with ml show ?thesis by (rule that)
qed

lemma match_loop_static:
  assumes "match_inv s incoming" and "match_loop sd s incoming trades = Inr (s', trades')"
  shows "same_static (heap s r) (heap s' r)" and "heap_top s' = heap_top s"
    and "next_order_id s' = next_order_id s"
    and "total_trades s' = total_trades s" and "total_volume s' = total_volume s"
  using match_loop_frame[OF assms] by (simp_all add: loop_frame_def)

lemma after_match_book_inv:
  assumes bi: "book_inv s"
    and ml: "match_loop sd (with_new_order s p qty sd ty) (heap_top s) [] = Inr (s2, trades)"
  shows "book_inv (after_match s s2 p sd ty)"
proof -
  note mi = with_new_order_match_inv[OF bi, of p qty sd ty]
  from match_loop_inv[OF mi ml] have mi2: "match_inv s2 (heap_top s)"
    and ms: "match_stops sd s2 (heap_top s)" by simp_all
  from match_loop_static(1)[OF mi ml, of "heap_top s"]
  have st: "order_side (heap s2 (heap_top s)) = sd" "order_price (heap s2 (heap_top s)) = p"
    "order_type (heap s2 (heap_top s)) = ty" "order_id (heap s2 (heap_top s)) = next_order_id s"
    by (simp_all add: same_static_def)
  show ?thesis
  proof (cases "get_remaining_qty (heap s2 (heap_top s)) \<noteq> 0 \<and> ty = LIMIT")
    case True
    with insert_resting_book_inv[OF mi2 ms st(1,2) _ _ st(4)[symmetric]] st(3)
    show ?thesis by (simp add: after_match_def)
  next
    case False
    with mi2 show ?thesis by (auto simp: after_match_def match_inv_def)
  qed
qed

lemma add_order_run_book_inv:
  assumes "book_inv s" and "add_order_run s p qty sd ty = Inr (oid, trades, s')"
  shows "book_inv s'"
proof (cases "valid_params p qty ty")
  case False
  with assms show ?thesis by (simp add: add_order_run_rejected)
next
  case True
  from add_order_run_accepted[OF assms(1) True, of sd] obtain s2 trades2 where
    ml: "match_loop sd (with_new_order s p qty sd ty) (heap_top s) [] = Inr (s2, trades2)" and
    eq: "add_order_run s p qty sd ty =
       Inr (next_order_id s, trades2, update_statistics trades2 (after_match s s2 p sd ty))"
    by blast
  from after_match_book_inv[OF assms(1) ml] eq assms(2) show ?thesis by auto
qed

lemma add_order_run_total:
  "book_inv s \<Longrightarrow> \<exists>oid trades s'. add_order_run s p qty sd ty = Inr (oid, trades, s')"
  by (cases "valid_params p qty ty")
     (auto simp: add_order_run_rejected elim: add_order_run_accepted[of s p qty ty sd])

lemma add_market_order_book_inv:
  assumes "book_inv s" and "add_market_order s qty sd = Inr (trades, s')"
  shows "book_inv s'"
proof (cases "qty = 0")
  case True
  with assms show ?thesis by (simp add: add_market_order_zero)
next
  case False
  from add_market_order_accepted[OF assms(1) False, of sd] obtain s2 trades2 where
    ml: "match_loop sd (with_new_order s 0 qty sd MARKET) (heap_top s) [] = Inr (s2, trades2)" and
    eq: "add_market_order s qty sd = Inr (trades2, update_statistics trades2 s2)"
    by blast
  from match_loop_inv[OF with_new_order_match_inv[OF assms(1)] ml]
  have "book_inv s2" by (simp add: match_inv_def)
  with eq assms(2) show ?thesis by auto
qed

lemma add_market_order_total:
  "book_inv s \<Longrightarrow> \<exists>trades s'. add_market_order s qty sd = Inr (trades, s')"
  by (cases "qty = 0")
     (auto simp: add_market_order_zero elim: add_market_order_accepted[of s qty sd])

lemma ladder_refs_append [simp]: "ladder_refs (a @ b) = ladder_refs a @ ladder_refs b"
  by (simp add: ladder_refs_def)

lemma ladder_ok_append [simp]: "ladder_ok h sd (a @ b) = (ladder_ok h sd a \<and> ladder_ok h sd b)"
  by (simp add: ladder_ok_def)

lemma map_of_mid: "p \<notin> fst ` set pre \<Longrightarrow> map_of (pre @ (p, l) # post) p = Some l"
  by (induction pre) auto

lemma map_erase_mid: "p \<notin> fst ` set pre \<Longrightarrow> map_erase p (pre @ (p, l) # post) = pre @ post"
  by (induction pre) auto

lemma map_modify_mid:
  "p \<notin> fst ` set pre \<Longrightarrow> map_modify p f (pre @ (p, l) # post) = pre @ (p, f l) # post"
  by (induction pre) auto

lemma ref_in_ladder:
  "ladder_ok h sd m \<Longrightarrow> r \<in> set (ladder_refs m) \<Longrightarrow>
   order_side (h r) = sd \<and> (\<exists>lvl. (order_price (h r), lvl) \<in> set m \<and> r \<in> set (orders lvl))"
proof (induction m)
  case Nil
  then show ?case by simp
next
  case (Cons kl m)
  obtain k lvl where kl: "kl = (k, lvl)" by (cases kl)
  show ?case
  proof (cases "r \<in> set (orders lvl)")
    case True
    with Cons.prems(1) kl have "resting_ok h sd k r"
      by (simp add: level_ok_def list_all_iff)
    with True kl show ?thesis by (auto simp: resting_ok_def)
  next
    case False
    with Cons.prems kl have "ladder_ok h sd m" "r \<in> set (ladder_refs m)" by simp_all
    from Cons.IH[OF this] show ?thesis by auto
  qed
qed

lemma sorted_split_keys:
  assumes "strict_linear cmp" and "sorted_wrt cmp (map fst (pre @ (p, l) # post))"
  shows "p \<notin> fst ` set pre" and "p \<notin> fst ` set post"
proof -
  from assms(2) have a: "\<forall>x\<in>set (map fst pre). cmp x p" and b: "\<forall>y\<in>set (map fst post). cmp p y"
    by (auto simp: sorted_wrt_append)
  from assms(1) have irr: "\<And>a. \<not> cmp a a" by (simp add: strict_linear_def)
  from a irr show "p \<notin> fst ` set pre" by auto
  from b irr show "p \<notin> fst ` set post" by auto
qed

lemma apart_own_tail:
  assumes "sorted_wrt (side_cmp sd) (map fst ((k, l) # rest))" and "apart sd ((k, l) # rest) opp"
  shows "apart sd rest opp"
proof (cases rest)
  case Nil
  then show ?thesis by (simp add: apart_def)
next
  case (Cons kl2 rest')
  obtain k2 l2 where kl2: "kl2 = (k2, l2)" by (cases kl2)
  show ?thesis
  proof (cases opp)
    case Nil
    then show ?thesis by (simp add: apart_def Cons kl2)
  next
    case (Cons ol opp')
    obtain ok ol' where ol: "ol = (ok, ol')" by (cases ol)
    from assms(1) \<open>rest = kl2 # rest'\<close> kl2 have "side_cmp sd k k2" by simp
    moreover from assms(2) Cons ol have "\<not> price_crosses sd k ok" by (simp add: apart_def)
    ultimately have "\<not> price_crosses sd k2 ok"
      by (cases sd) (auto simp: side_cmp_def price_crosses_def greater_def less_def)
    with Cons ol \<open>rest = kl2 # rest'\<close> kl2 show ?thesis by (simp add: apart_def)
  qed
qed

lemma apart_same_head:
  "apart sd ((k, l) # rest) opp \<Longrightarrow> apart sd ((k, l') # rest') opp"
  by (auto simp: apart_def split: list.splits)

lemma apart_replace:
  assumes so: "sorted_wrt (side_cmp sd) (map fst (pre @ (p, l) # post))"
    and ap: "apart sd (pre @ (p, l) # post) opp"
  shows "apart sd (pre @ post) opp" and "apart sd (pre @ (p, l') # post) opp"
proof -
  show "apart sd (pre @ (p, l') # post) opp"
  proof (cases pre)
    case Nil
    with ap show ?thesis by (auto intro: apart_same_head)
  next
    case (Cons a pre')
    with ap show ?thesis by (cases a) (auto intro: apart_same_head)
  qed
  show "apart sd (pre @ post) opp"
  proof (cases pre)
    case Nil
    with so ap show ?thesis by (auto intro: apart_own_tail)
  next
    case (Cons a pre')
    with ap show ?thesis by (cases a) (auto intro: apart_same_head)
  qed
qed

lemma level_sum_filter:
  "level_sum h (filter P q) + level_sum h (filter (\<lambda>r. \<not> P r) q) = level_sum h q"
  by (induction q) (auto simp: add_ac)

lemma level_sum_rem_cong:
  "\<forall>r. get_remaining_qty (h' r) = get_remaining_qty (h r) \<Longrightarrow> level_sum h' q = level_sum h q"
  by (simp add: level_sum_def)

lemma remove_order_level_ok:
  assumes lo: "level_ok h sd p lvl"
    and ids: "\<forall>r. order_id (h' r) = order_id (h r)"
    and rem: "\<forall>r. get_remaining_qty (h' r) = get_remaining_qty (h r)"
    and same: "\<forall>r\<in>set (orders lvl). order_id (h r) \<noteq> oid \<longrightarrow> h' r = h r"
  shows "level_ok h' sd p (snd (remove_order h' oid lvl))"
proof -
  let ?keep = "filter (\<lambda>r. order_id (h' r) \<noteq> oid) (orders lvl)"
  let ?drop = "filter (\<lambda>r. order_id (h' r) = oid) (orders lvl)"
  from lo have tot: "total_quantity lvl = level_sum h (orders lvl)"
    and lp: "level_price lvl = p"
    and ro: "\<forall>r\<in>set (orders lvl). resting_ok h sd p r"
    by (simp_all add: level_ok_def list_all_iff)
  from level_sum_filter[of h' "\<lambda>r. order_id (h' r) = oid" "orders lvl"]
  have "level_sum h' ?drop + level_sum h' ?keep = level_sum h (orders lvl)"
    by (simp add: level_sum_rem_cong[OF rem])
  with tot have t: "total_quantity lvl - level_sum h' ?drop = level_sum h' ?keep"
    by (simp add: algebra_simps)
  have k: "\<forall>r\<in>set ?keep. resting_ok h' sd p r"
    using ro same ids by (auto simp: resting_ok_def)
  from t k lp show ?thesis
    by (simp add: remove_order_eq level_ok_def list_all_iff level_sum_def)
qed

lemma own_other [simp]:
  "opposite (other_side sd) s = own sd s"
  "own (other_side sd) s = opposite sd s"
  "other_side (other_side sd) = sd"
  by (cases sd; simp add: opposite_def own_def other_side_def)+

lemma set_opposite_other_simps [simp]:
  "own sd (set_opposite (other_side sd) m s) = m"
  "opposite sd (set_opposite (other_side sd) m s) = opposite sd s"
  by (cases sd; simp add: set_opposite_def opposite_def own_def other_side_def)+

lemma ladders_upd [simp]:
  "opposite sd (s\<lparr>heap := h\<rparr>) = opposite sd s"
  "opposite sd (s\<lparr>order_map := om\<rparr>) = opposite sd s"
  "own sd (s\<lparr>heap := h\<rparr>) = own sd s"
  "own sd (s\<lparr>order_map := om\<rparr>) = own sd s"
  by (simp_all add: opposite_def own_def)

lemma ladder_ok_transfer:
  "ladder_ok h sd m \<Longrightarrow> (\<And>r. r \<in> set (ladder_refs m) \<Longrightarrow> h' r = h r) \<Longrightarrow> ladder_ok h' sd m"
  using ladder_ok_cong[of m h' h sd] by simp

text \<open>\<^verbatim>\<open>cancel_order\<close> for an id the index knows, with the two branches folded into one.\<close>

lemma cancel_order_found:
  assumes "order_map s oid = Some od"
  shows "cancel_order s oid =
     (let sd = order_side (heap s od);
          h1 = store (heap s) od (cancel (heap s od));
          res = ladder_cancel h1 oid (order_price (heap s od)) (own sd s)
      in (fst res, set_opposite (other_side sd) (snd res)
                     (s\<lparr>heap := h1, order_map := umap_erase (order_map s) oid\<rparr>)))"
  using assms
  by (cases "order_side (heap s od)")
     (auto simp: cancel_order_def Let_def store_def cancel_def own_def set_opposite_def
        other_side_def split: prod.splits)

lemma cancel_fields [simp]:
  "order_id (cancel od) = order_id od"
  "order_price (cancel od) = order_price od"
  "order_quantity (cancel od) = order_quantity od"
  "filled_qty (cancel od) = filled_qty od"
  "order_side (cancel od) = order_side od"
  "order_type (cancel od) = order_type od"
  "get_remaining_qty (cancel od) = get_remaining_qty od"
  by (simp_all add: cancel_def get_remaining_qty_def)

lemma cancel_live: "live od \<Longrightarrow> order_status (cancel od) = CANCELLED"
  by (auto simp: cancel_def live_def)

lemma ladder_cancel_mid:
  assumes "p \<notin> fst ` set pre"
  shows "ladder_cancel h oid p (pre @ (p, lvl) # post) =
     (fst (remove_order h oid lvl),
      if level_empty (snd (remove_order h oid lvl)) then pre @ post
      else pre @ (p, snd (remove_order h oid lvl)) # post)"
proof -
  have f: "map_find (pre @ (p, lvl) # post) p = Some lvl"
    unfolding map_find_def using assms by (rule map_of_mid)
  show ?thesis
    unfolding ladder_cancel_def f
    by (simp add: map_erase_mid[OF assms] map_modify_mid[OF assms] split: prod.splits)
qed

lemma cancel_order_book_inv:
  assumes bi: "book_inv s"
  shows "book_inv (snd (cancel_order s oid))"
proof (cases "order_map s oid")
  case None
  with bi show ?thesis by (simp add: cancel_order_def)
next
  case (Some od)
  define sd where "sd = order_side (heap s od)"
  define p where "p = order_price (heap s od)"
  define h1 where "h1 = store (heap s) od (cancel (heap s od))"
  from bi have si: "side_inv sd s" by (simp add: book_inv_side[of _ sd])
  from bi Some have oid: "order_id (heap s od) = oid" and mem: "od \<in> set (book_refs s)"
    by (auto simp: book_inv_def index_ok_def)
  from si have lo_own: "ladder_ok (heap s) sd (own sd s)"
    and lo_opp: "ladder_ok (heap s) (other_side sd) (opposite sd s)"
    and so: "sorted_wrt (side_cmp sd) (map fst (own sd s))"
    and di: "distinct (ladder_refs (own sd s) @ ladder_refs (opposite sd s))"
    and lt: "list_all (\<lambda>r. r < heap_top s) (ladder_refs (own sd s) @ ladder_refs (opposite sd s))"
    and ap: "apart sd (own sd s) (opposite sd s)"
    and ix: "\<forall>i r. order_map s i = Some r \<longrightarrow> order_id (heap s r) = i
                \<and> r \<in> set (ladder_refs (own sd s)) \<union> set (ladder_refs (opposite sd s))"
    by (simp_all add: side_inv_def ladder_sorted_def)
  have in_own: "od \<in> set (ladder_refs (own sd s))"
  proof (rule ccontr)
    assume "od \<notin> set (ladder_refs (own sd s))"
    with mem have "od \<in> set (ladder_refs (opposite sd s))"
      by (simp add: set_book_refs[of s sd])
    from ref_in_ladder[OF lo_opp this] show False
      by (cases sd) (simp_all add: sd_def other_side_def)
  qed
  from ref_in_ladder[OF lo_own in_own] obtain lvl
    where lv: "(p, lvl) \<in> set (own sd s)" and od_in: "od \<in> set (orders lvl)"
    by (auto simp: p_def)
  from split_list[OF lv] obtain pre post where m: "own sd s = pre @ (p, lvl) # post" by blast
  note keys = sorted_split_keys[OF strict_linear_side_cmp so[unfolded m]]
  define lvl' where "lvl' = snd (remove_order h1 oid lvl)"
  define m' where "m' = (if level_empty lvl' then pre @ post else pre @ (p, lvl') # post)"
  have lc: "ladder_cancel h1 oid p (own sd s) = (fst (remove_order h1 oid lvl), m')"
    by (simp add: m ladder_cancel_mid[OF keys(1)] m'_def lvl'_def)
  define s' where "s' = set_opposite (other_side sd) m'
                     (s\<lparr>heap := h1, order_map := umap_erase (order_map s) oid\<rparr>)"
  have res: "snd (cancel_order s oid) = s'"
    using lc by (simp add: cancel_order_found[OF Some] Let_def sd_def[symmetric] p_def[symmetric]
        h1_def[symmetric] s'_def)
  have s'f: "own sd s' = m'" "opposite sd s' = opposite sd s" "heap s' = h1"
    "heap_top s' = heap_top s" "order_map s' = umap_erase (order_map s) oid"
    by (simp_all add: s'_def)
  have h1_oth: "\<forall>r. r \<noteq> od \<longrightarrow> h1 r = heap s r"
    and h1_ids: "\<forall>r. order_id (h1 r) = order_id (heap s r)"
    and h1_rem: "\<forall>r. get_remaining_qty (h1 r) = get_remaining_qty (heap s r)"
    by (simp_all add: h1_def store_def)
  note h1_other = h1_oth[rule_format]
  from di od_in m have not_pre: "od \<notin> set (ladder_refs pre)" and not_post: "od \<notin> set (ladder_refs post)"
    and not_opp: "od \<notin> set (ladder_refs (opposite sd s))"
    by auto
  from lo_own m have lo_pre: "ladder_ok (heap s) sd pre" and lo_post: "ladder_ok (heap s) sd post"
    by simp_all
  have c_pre: "ladder_ok h1 sd pre"
    using lo_pre by (rule ladder_ok_transfer) (rule h1_other, use not_pre in auto)
  have c_post: "ladder_ok h1 sd post"
    using lo_post by (rule ladder_ok_transfer) (rule h1_other, use not_post in auto)
  have c_opp: "ladder_ok h1 (other_side sd) (opposite sd s)"
    using lo_opp by (rule ladder_ok_transfer) (rule h1_other, use not_opp in auto)
  from lo_own m have lo_lvl: "level_ok (heap s) sd p lvl" by simp
  have same: "\<forall>r\<in>set (orders lvl). order_id (heap s r) \<noteq> oid \<longrightarrow> h1 r = heap s r"
    using oid h1_oth by auto
  have c_lvl: "level_ok h1 sd p lvl'"
    unfolding lvl'_def by (rule remove_order_level_ok[OF lo_lvl h1_ids h1_rem same])
  have ord': "orders lvl' = filter (\<lambda>r. order_id (h1 r) \<noteq> oid) (orders lvl)"
    by (simp add: lvl'_def remove_order_eq)
  have c_ok: "ladder_ok h1 sd m'"
    using c_pre c_post c_lvl by (simp add: m'_def)
  have refs': "ladder_refs m' = ladder_refs pre @ orders lvl' @ ladder_refs post"
    by (simp add: m'_def level_empty_def)
  have c_di: "distinct (ladder_refs m' @ ladder_refs (opposite sd s))"
    using di by (auto simp: refs' m ord')
  have c_lt: "list_all (\<lambda>r. r < heap_top s) (ladder_refs m' @ ladder_refs (opposite sd s))"
    using lt by (auto simp: refs' m ord' list_all_iff)
  have c_so: "sorted_wrt (side_cmp sd) (map fst m')"
    using so by (auto simp: m m'_def sorted_wrt_append)
  have c_ap: "apart sd m' (opposite sd s)"
    using apart_replace(1)[OF so[unfolded m] ap[unfolded m]]
      apart_replace(2)[OF so[unfolded m] ap[unfolded m], where l' = lvl']
    by (simp add: m'_def)
  have c_ix: "\<forall>i r. umap_erase (order_map s) oid i = Some r \<longrightarrow> order_id (h1 r) = i
                \<and> r \<in> set (ladder_refs m') \<union> set (ladder_refs (opposite sd s))"
  proof (intro allI impI)
    fix i r assume "umap_erase (order_map s) oid i = Some r"
    then have ne: "i \<noteq> oid" and om: "order_map s i = Some r"
      by (auto simp: umap_erase_def split: if_splits)
    with ix have a: "order_id (heap s r) = i"
      and b: "r \<in> set (ladder_refs (own sd s)) \<union> set (ladder_refs (opposite sd s))" by auto
    from a ne h1_ids have "order_id (h1 r) \<noteq> oid" by simp
    with b have "r \<in> set (ladder_refs m') \<union> set (ladder_refs (opposite sd s))"
      by (auto simp: refs' m ord')
    with a h1_ids show "order_id (h1 r) = i
                \<and> r \<in> set (ladder_refs m') \<union> set (ladder_refs (opposite sd s))" by simp
  qed
  have "side_inv sd s'"
    unfolding side_inv_def s'f
    using c_so c_ok c_opp c_di c_lt c_ap c_ix si
    by (simp add: side_inv_def ladder_sorted_def)
  then show ?thesis by (simp add: res book_inv_side[of _ sd])
qed

lemma clear_book_inv: "book_inv (clear s)"
  by (simp add: clear_def book_inv_def ladder_sorted_def book_refs_def uncrossed_def
      get_best_bid_def index_ok_def)

lemma ctor_book_inv: "book_inv OrderBook_ctor"
  by (simp add: OrderBook_ctor_def book_inv_def ladder_sorted_def book_refs_def uncrossed_def
      get_best_bid_def index_ok_def)

section \<open>The trades of a matching walk\<close>

lemma match_front_facts:
  assumes inv: "level_inv sd k rest incoming s lvl" and ord: "orders lvl = r # qs"
    and ir: "get_remaining_qty (heap s incoming) \<noteq> 0"
    and mf: "match_front s incoming lvl tp r = Inr (s1, lvl1, t)"
    and q: "q = min (get_remaining_qty (heap s incoming)) (get_remaining_qty (heap s r))"
  shows "trade_id t = next_trade_id s" and "next_trade_id s1 = next_trade_id s + 1"
    and "trade_price t = tp" and "trade_quantity t = q"
    and "buy_order_id t = (if order_side (heap s incoming) = BUY then order_id (heap s incoming)
                            else order_id (heap s r))"
    and "sell_order_id t = (if order_side (heap s incoming) = SELL then order_id (heap s incoming)
                             else order_id (heap s r))"
    and "heap s1 incoming = filled_by q (heap s incoming)"
    and "heap s1 r = filled_by q (heap s r)"
    and "\<forall>x. x \<noteq> incoming \<longrightarrow> x \<noteq> r \<longrightarrow> heap s1 x = heap s x"
    and "orders lvl1 = (if q = get_remaining_qty (heap s r) then qs else r # qs)"
    and "q \<noteq> get_remaining_qty (heap s r) \<longrightarrow> get_remaining_qty (heap s1 incoming) = 0"
    and "incoming \<noteq> r" and "incoming \<notin> set qs" and "r \<notin> set qs"
    and "resting_ok (heap s) (other_side sd) k r"
proof -
  note fr = level_inv_front[OF inv ord]
  note ok = match_front_ok[OF fr(1) fr(2) ir fr(4) fr(5) ord q, of tp]
  from ok mf show "trade_id t = next_trade_id s" and "next_trade_id s1 = next_trade_id s + 1"
    and "trade_price t = tp" and "trade_quantity t = q"
    and "buy_order_id t = (if order_side (heap s incoming) = BUY then order_id (heap s incoming)
                            else order_id (heap s r))"
    and "sell_order_id t = (if order_side (heap s incoming) = SELL then order_id (heap s incoming)
                             else order_id (heap s r))"
    and "orders lvl1 = (if q = get_remaining_qty (heap s r) then qs else r # qs)"
    by auto
  from ok mf fr(1) show h1: "heap s1 incoming = filled_by q (heap s incoming)"
    and "heap s1 r = filled_by q (heap s r)"
    and "\<forall>x. x \<noteq> incoming \<longrightarrow> x \<noteq> r \<longrightarrow> heap s1 x = heap s x"
    by (auto simp: store_def)
  show "q \<noteq> get_remaining_qty (heap s r) \<longrightarrow> get_remaining_qty (heap s1 incoming) = 0"
    using h1 q by (auto simp: min_def)
  show "incoming \<noteq> r" by (rule fr(1))
  from inv ord show "incoming \<notin> set qs" and "r \<notin> set qs"
    by (auto simp: level_inv_unfold)
  show "resting_ok (heap s) (other_side sd) k r" by (rule fr(3))
qed

lemma pml_prefix:
  assumes "level_inv sd k rest incoming s lvl"
    and "process_matches_at_level s incoming lvl tp trades = Inr (s', lvl', trades')"
  shows "trades' = trades @ drop (length trades) trades'"
  using assms
proof (induction rule: pml_induct)
  case (stop s lvl trades)
  then show ?case by simp
next
  case (step s lvl trades r qs s1 lvl1 t s' lvl' trades')
  from step(7) have "trades' = trades @ t # drop (Suc (length trades)) trades'" by simp
  then have "take (length trades) trades' = trades"
    by (metis append_eq_conv_conj)
  then show ?case by (metis append_take_drop_id)
qed

lemma consecutive_from_append:
  "consecutive_from n (xs @ ys) =
     (consecutive_from n xs \<and> consecutive_from (n + of_nat (length xs)) ys)"
  by (induction xs arbitrary: n) (auto simp: add.assoc add.commute)

lemma pml_trade_ids:
  assumes "level_inv sd k rest incoming s lvl"
    and "process_matches_at_level s incoming lvl tp trades = Inr (s', lvl', trades')"
  shows "consecutive_from (next_trade_id s) (map trade_id (drop (length trades) trades'))
         \<and> next_trade_id s' = next_trade_id s + of_nat (length trades' - length trades)"
  using assms
proof (induction rule: pml_induct)
  case (stop s lvl trades)
  then show ?case by simp
next
  case (step s lvl trades r qs s1 lvl1 t s' lvl' trades')
  note f = match_front_facts[OF step(1,2,3,4) refl]
  from pml_prefix[OF step(5,6)] obtain new1 where eq: "trades' = trades @ t # new1"
    by (metis append.assoc append_Cons append_Nil)
  from step(7) f(1,2) show ?case
    unfolding eq by (simp add: add.assoc)
qed

lemma priced_by_book_cong:
  "\<forall>x\<in>set xs. h' (snd x) = h (snd x) \<Longrightarrow>
   priced_by_book h' sd iid rem xs ts = priced_by_book h sd iid rem xs ts"
proof (induction h sd iid rem xs ts rule: priced_by_book.induct)
  case (1 h sd iid rem xs)
  then show ?case by simp
next
  case (2 h sd iid rem t ts)
  then show ?case by simp
next
  case (3 h sd iid rem k r xs t ts)
  then show ?case by simp
qed

lemma priced_by_book_extend:
  "priced_by_book h sd iid rem xs ts \<Longrightarrow> priced_by_book h sd iid rem (xs @ ys) ts"
  by (induction h sd iid rem xs ts rule: priced_by_book.induct) auto

lemma priced_by_book_length:
  "priced_by_book h sd iid rem xs ts \<Longrightarrow> length ts \<le> length xs"
  by (induction h sd iid rem xs ts rule: priced_by_book.induct) auto

lemma priced_by_book_append:
  "priced_by_book h sd iid rem xs ts \<Longrightarrow> length ts = length xs \<Longrightarrow>
   priced_by_book h sd iid (rem - sum_list (map trade_quantity ts)) ys us \<Longrightarrow>
   priced_by_book h sd iid rem (xs @ ys) (ts @ us)"
proof (induction h sd iid rem xs ts rule: priced_by_book.induct)
  case (1 h sd iid rem xs)
  then show ?case by simp
next
  case (2 h sd iid rem t ts)
  then show ?case by simp
next
  case (3 h sd iid rem k r xs t ts)
  then show ?case by (auto simp: diff_diff_eq)
qed

lemma pml_stop_result:
  assumes "process_matches_at_level s incoming lvl tp trades = Inr (s', lvl', trades')"
    and "level_empty lvl \<or> get_remaining_qty (heap s incoming) = 0"
  shows "s' = s" and "lvl' = lvl" and "trades' = trades"
  using assms by (simp_all add: pml_stop)

lemma pml_priced:
  assumes "level_inv sd k rest incoming s lvl"
    and "process_matches_at_level s incoming lvl k trades = Inr (s', lvl', trades')"
  shows "order_side (heap s incoming) = sd \<longrightarrow>
         priced_by_book (heap s) sd (order_id (heap s incoming))
           (get_remaining_qty (heap s incoming)) (map (\<lambda>r. (k, r)) (orders lvl))
           (drop (length trades) trades')
         \<and> get_remaining_qty (heap s' incoming) =
             get_remaining_qty (heap s incoming)
               - sum_list (map trade_quantity (drop (length trades) trades'))
         \<and> (level_empty lvl' \<longrightarrow> length trades' - length trades = length (orders lvl))"
  using assms
proof (induction rule: pml_induct)
  case (stop s lvl trades)
  then show ?case
    by (auto simp: level_empty_def)
next
  case (step s lvl trades r qs s1 lvl1 t s' lvl' trades')
  define q where "q = min (get_remaining_qty (heap s incoming)) (get_remaining_qty (heap s r))"
  note f = match_front_facts[OF step(1,2,3,4) q_def]
  from pml_prefix[OF step(5,6)] obtain new1 where eq: "trades' = trades @ t # new1"
    by (metis append.assoc append_Cons append_Nil)
  show ?case
  proof (intro impI)
    assume sd: "order_side (heap s incoming) = sd"
    with f(7) have sd1: "order_side (heap s1 incoming) = sd" by simp
    from f(15) have ro: "order_price (heap s r) = k" "order_side (heap s r) = other_side sd"
      by (simp_all add: resting_ok_def)
    have head: "trade_price t = k \<and> order_price (heap s r) = k
      \<and> trade_quantity t = min (get_remaining_qty (heap s incoming)) (get_remaining_qty (heap s r))
      \<and> order_side (heap s r) = (if sd = BUY then SELL else BUY)
      \<and> buy_order_id t = (if sd = BUY then order_id (heap s incoming) else order_id (heap s r))
      \<and> sell_order_id t = (if sd = SELL then order_id (heap s incoming) else order_id (heap s r))"
      using f(3,4,5,6) ro sd q_def by (simp add: other_side_def)
    show "priced_by_book (heap s) sd (order_id (heap s incoming))
           (get_remaining_qty (heap s incoming)) (map (\<lambda>r. (k, r)) (orders lvl))
           (drop (length trades) trades')
         \<and> get_remaining_qty (heap s' incoming) =
             get_remaining_qty (heap s incoming)
               - sum_list (map trade_quantity (drop (length trades) trades'))
         \<and> (level_empty lvl' \<longrightarrow> length trades' - length trades = length (orders lvl))"
    proof (cases "q = get_remaining_qty (heap s r)")
      case True
      with f(10) have o1: "orders lvl1 = qs" by simp
      have same: "\<forall>x\<in>set (map (\<lambda>r. (k, r)) qs). heap s1 (snd x) = heap s (snd x)"
        using f(9,13,14) by auto
      from step(7) sd1 have IH: "priced_by_book (heap s1) sd (order_id (heap s1 incoming))
           (get_remaining_qty (heap s1 incoming)) (map (\<lambda>r. (k, r)) qs) new1"
        and IHr: "get_remaining_qty (heap s' incoming) =
             get_remaining_qty (heap s1 incoming) - sum_list (map trade_quantity new1)"
        and IHl: "level_empty lvl' \<longrightarrow> length new1 = length qs"
        by (simp_all add: eq o1)
      from IH have "priced_by_book (heap s) sd (order_id (heap s incoming))
           (get_remaining_qty (heap s incoming) - q) (map (\<lambda>r. (k, r)) qs) new1"
        by (simp add: priced_by_book_cong[OF same] f(7))
      with head IHr IHl f(4,7) show ?thesis
        by (simp add: eq step(2) q_def diff_diff_eq)
    next
      case False
      with f(11) have z: "get_remaining_qty (heap s1 incoming) = 0" by simp
      from pml_stop_result[OF step(6)] z have st: "s' = s1" "lvl' = lvl1" "trades' = trades @ [t]"
        by simp_all
      with eq have n1: "new1 = []" by simp
      from False f(10) st have ne: "\<not> level_empty lvl'" by (simp add: level_empty_def)
      from False have "q = get_remaining_qty (heap s incoming)"
        by (auto simp: q_def min_def split: if_splits)
      with head n1 st z f(4) ne show ?thesis
        by (simp add: eq step(2))
    qed
  qed
qed

lemma walk_order_Cons [simp]:
  "walk_order ((k, lvl) # m) = map (\<lambda>r. (k, r)) (orders lvl) @ walk_order m"
  by (simp add: walk_order_def)

lemma walk_order_Nil [simp]: "walk_order [] = []"
  by (simp add: walk_order_def)

lemma walk_order_refs: "map snd (walk_order m) = ladder_refs m"
  by (induction m) (auto simp: comp_def)

lemma match_loop_stop_result:
  assumes "match_loop sd s incoming trades = Inr (s', trades')"
    and "get_remaining_qty (heap s incoming) = 0"
  shows "s' = s" and "trades' = trades"
  using assms by (simp_all add: match_loop_stop)

lemma match_loop_prefix:
  assumes "match_inv s incoming"
    and "match_loop sd s incoming trades = Inr (s', trades')"
  shows "trades' = trades @ drop (length trades) trades'"
  using assms
proof (induction rule: match_loop_induct)
  case (stop s trades)
  then show ?case by simp
next
  case (step s trades k best rest s1 lvl1 trades1 s' trades')
  from pml_prefix[OF step(5,6)] obtain new1 where a: "trades1 = trades @ new1" by metis
  from step(10) obtain new2 where "trades' = trades1 @ new2" by metis
  with a show ?case by simp
qed

lemma match_loop_trade_ids:
  assumes "match_inv s incoming"
    and "match_loop sd s incoming trades = Inr (s', trades')"
  shows "consecutive_from (next_trade_id s) (map trade_id (drop (length trades) trades'))
         \<and> next_trade_id s' = next_trade_id s + of_nat (length trades' - length trades)"
  using assms
proof (induction rule: match_loop_induct)
  case (stop s trades)
  then show ?case by simp
next
  case (step s trades k best rest s1 lvl1 trades1 s' trades')
  from pml_prefix[OF step(5,6)] obtain new1 where a: "trades1 = trades @ new1" by metis
  from match_loop_prefix[OF step(8,9)] obtain new2 where b: "trades' = trades1 @ new2" by metis
  from pml_trade_ids[OF step(5,6)] step(10) show ?case
    unfolding b a by (simp add: consecutive_from_append add.assoc)
qed

lemma match_loop_priced:
  assumes "match_inv s incoming"
    and "match_loop sd s incoming trades = Inr (s', trades')"
  shows "order_side (heap s incoming) = sd \<longrightarrow>
         priced_by_book (heap s) sd (order_id (heap s incoming))
           (get_remaining_qty (heap s incoming)) (walk_order (opposite sd s))
           (drop (length trades) trades')
         \<and> get_remaining_qty (heap s' incoming) =
             get_remaining_qty (heap s incoming)
               - sum_list (map trade_quantity (drop (length trades) trades'))"
  using assms
proof (induction rule: match_loop_induct)
  case (stop s trades)
  then show ?case by simp
next
  case (step s trades k best rest s1 lvl1 trades1 s' trades')
  let ?nb = "next_book sd k lvl1 rest s1"
  from pml_prefix[OF step(5,6)] obtain new1 where a: "trades1 = trades @ new1" by metis
  from match_loop_prefix[OF step(8,9)] obtain new2 where b: "trades' = trades1 @ new2" by metis
  note fr = pml_frame[OF step(5,6)]
  from fr have st: "same_static (heap s incoming) (heap s1 incoming)"
    and oth: "\<forall>r. r \<noteq> incoming \<longrightarrow> r \<notin> set (orders best) \<longrightarrow> heap s1 r = heap s r"
    by (simp_all add: loop_frame_def)
  show ?case
  proof (intro impI)
    assume sd: "order_side (heap s incoming) = sd"
    with st have sd1: "order_side (heap s1 incoming) = sd" and id1: "order_id (heap s1 incoming) = order_id (heap s incoming)"
      by (simp_all add: same_static_def)
    from pml_priced[OF step(5,6)] sd a
    have p1: "priced_by_book (heap s) sd (order_id (heap s incoming))
           (get_remaining_qty (heap s incoming)) (map (\<lambda>r. (k, r)) (orders best)) new1"
      and r1: "get_remaining_qty (heap s1 incoming) =
             get_remaining_qty (heap s incoming) - sum_list (map trade_quantity new1)"
      and l1: "level_empty lvl1 \<longrightarrow> length new1 = length (orders best)"
      by simp_all
    from step(10) sd1 b id1
    have p2: "priced_by_book (heap s1) sd (order_id (heap s incoming))
           (get_remaining_qty (heap s1 incoming)) (walk_order (opposite sd ?nb)) new2"
      and r2: "get_remaining_qty (heap s' incoming) =
             get_remaining_qty (heap s1 incoming) - sum_list (map trade_quantity new2)"
      by simp_all
    show "priced_by_book (heap s) sd (order_id (heap s incoming))
           (get_remaining_qty (heap s incoming)) (walk_order (opposite sd s))
           (drop (length trades) trades')
         \<and> get_remaining_qty (heap s' incoming) =
             get_remaining_qty (heap s incoming)
               - sum_list (map trade_quantity (drop (length trades) trades'))"
    proof (cases "level_empty lvl1")
      case True
      from step(5) have "distinct (orders best @ ladder_refs rest)"
        and "incoming \<notin> set (ladder_refs rest)"
        by (auto simp: level_inv_unfold)
      with oth have "\<forall>r\<in>set (ladder_refs rest). heap s1 r = heap s r" by auto
      then have same: "\<forall>x\<in>set (walk_order rest). heap s1 (snd x) = heap s (snd x)"
        by (simp add: walk_order_refs[symmetric])
      from p2 True have "priced_by_book (heap s) sd (order_id (heap s incoming))
           (get_remaining_qty (heap s1 incoming)) (walk_order rest) new2"
        by (simp add: priced_by_book_cong[OF same])
      with priced_by_book_append[OF p1] l1 True r1 r2 show ?thesis
        by (simp add: a b step(2) diff_diff_eq)
    next
      case False
      with pml_exit[OF step(5,6)] have z: "get_remaining_qty (heap s1 incoming) = 0" by simp
      from match_loop_stop_result[OF step(9)] z have "trades' = trades1" by simp
      with b have n2: "new2 = []" by simp
      from priced_by_book_extend[OF p1] r1 r2 n2 show ?thesis
        by (simp add: a b step(2))
    qed
  qed
qed

lemma filled_by_trades_cong:
  "\<forall>r\<in>set rs. h1 r = h r \<and> h1' r = h' r \<Longrightarrow>
   filled_by_trades h1 h1' rs ts = filled_by_trades h h' rs ts"
  by (induction h h' rs ts rule: filled_by_trades.induct) auto

lemma filled_by_trades_extend:
  "filled_by_trades h h' rs ts \<Longrightarrow> filled_by_trades h h' (rs @ rs') ts"
  by (induction h h' rs ts rule: filled_by_trades.induct) auto

lemma filled_by_trades_length:
  "filled_by_trades h h' rs ts \<Longrightarrow> length ts \<le> length rs"
  by (induction h h' rs ts rule: filled_by_trades.induct) auto

lemma filled_by_trades_append:
  "filled_by_trades h h' rs ts \<Longrightarrow> length ts = length rs \<Longrightarrow> filled_by_trades h h' rs' us \<Longrightarrow>
   filled_by_trades h h' (rs @ rs') (ts @ us)"
  by (induction h h' rs ts rule: filled_by_trades.induct) auto

lemma pml_consumed:
  assumes "level_inv sd k rest incoming s lvl"
    and "process_matches_at_level s incoming lvl tp trades = Inr (s', lvl', trades')"
  shows "level_empty lvl' \<longrightarrow> length trades' - length trades = length (orders lvl)"
  using assms
proof (induction rule: pml_induct)
  case (stop s lvl trades)
  then show ?case by (auto simp: level_empty_def)
next
  case (step s lvl trades r qs s1 lvl1 t s' lvl' trades')
  define q where "q = min (get_remaining_qty (heap s incoming)) (get_remaining_qty (heap s r))"
  note f = match_front_facts[OF step(1,2,3,4) q_def]
  from pml_prefix[OF step(5,6)] obtain new1 where eq: "trades' = trades @ t # new1"
    by (metis append.assoc append_Cons append_Nil)
  show ?case
  proof (cases "q = get_remaining_qty (heap s r)")
    case True
    with f(10) step(7) show ?thesis by (simp add: eq step(2))
  next
    case False
    with f(11) have z: "get_remaining_qty (heap s1 incoming) = 0" by simp
    from pml_stop_result[OF step(6)] z have st: "lvl' = lvl1" by simp
    with False f(10) show ?thesis by (simp add: level_empty_def)
  qed
qed

lemma pml_filled:
  assumes "level_inv sd k rest incoming s lvl"
    and "process_matches_at_level s incoming lvl tp trades = Inr (s', lvl', trades')"
  shows "filled_by_trades (heap s) (heap s') (orders lvl) (drop (length trades) trades')
         \<and> (\<forall>x. x \<noteq> incoming \<longrightarrow> x \<notin> set (take (length trades' - length trades) (orders lvl))
                \<longrightarrow> heap s' x = heap s x)
         \<and> filled_qty (heap s' incoming) =
             filled_qty (heap s incoming)
               + sum_list (map trade_quantity (drop (length trades) trades'))"
  using assms
proof (induction rule: pml_induct)
  case (stop s lvl trades)
  then show ?case by simp
next
  case (step s lvl trades r qs s1 lvl1 t s' lvl' trades')
  define q where "q = min (get_remaining_qty (heap s incoming)) (get_remaining_qty (heap s r))"
  note f = match_front_facts[OF step(1,2,3,4) q_def]
  from pml_prefix[OF step(5,6)] obtain new1 where eq: "trades' = trades @ t # new1"
    by (metis append.assoc append_Cons append_Nil)
  show ?case
  proof (cases "q = get_remaining_qty (heap s r)")
    case True
    with f(10) have o1: "orders lvl1 = qs" by simp
    from step(7) have IH: "filled_by_trades (heap s1) (heap s') qs new1"
      and IHf: "\<forall>x. x \<noteq> incoming \<longrightarrow> x \<notin> set (take (length new1) qs) \<longrightarrow> heap s' x = heap s1 x"
      and IHi: "filled_qty (heap s' incoming) =
                  filled_qty (heap s1 incoming) + sum_list (map trade_quantity new1)"
      by (simp_all add: eq o1)
    from f(12,14) IHf have r': "heap s' r = heap s1 r"
      by (metis in_set_takeD)
    have "\<forall>x\<in>set qs. heap s1 x = heap s x \<and> heap s' x = heap s' x"
      using f(9,13,14) by auto
    from filled_by_trades_cong[OF this] IH have a: "filled_by_trades (heap s) (heap s') qs new1"
      by simp
    have b: "\<forall>x. x \<noteq> incoming \<longrightarrow> x \<notin> set (take (Suc (length new1)) (r # qs))
                \<longrightarrow> heap s' x = heap s x"
      using IHf f(9) by auto
    from a b r' f(4,7,8) IHi show ?thesis
      by (simp add: eq step(2) add.assoc)
  next
    case False
    with f(11) have z: "get_remaining_qty (heap s1 incoming) = 0" by simp
    from pml_stop_result[OF step(6)] z have st: "s' = s1" "trades' = trades @ [t]"
      by simp_all
    with eq have n1: "new1 = []" by simp
    from f(4,7,8,9) show ?thesis
      by (simp add: eq n1 st(1) step(2))
  qed
qed

lemma match_loop_filled:
  assumes "match_inv s incoming"
    and "match_loop sd s incoming trades = Inr (s', trades')"
  shows "filled_by_trades (heap s) (heap s') (ladder_refs (opposite sd s))
           (drop (length trades) trades')
         \<and> (\<forall>x. x \<noteq> incoming \<longrightarrow>
                x \<notin> set (take (length trades' - length trades) (ladder_refs (opposite sd s)))
                \<longrightarrow> heap s' x = heap s x)
         \<and> filled_qty (heap s' incoming) =
             filled_qty (heap s incoming)
               + sum_list (map trade_quantity (drop (length trades) trades'))"
  using assms
proof (induction rule: match_loop_induct)
  case (stop s trades)
  then show ?case by simp
next
  case (step s trades k best rest s1 lvl1 trades1 s' trades')
  let ?nb = "next_book sd k lvl1 rest s1"
  from pml_prefix[OF step(5,6)] obtain new1 where a: "trades1 = trades @ new1" by metis
  from match_loop_prefix[OF step(8,9)] obtain new2 where b: "trades' = trades1 @ new2" by metis
  from pml_filled[OF step(5,6)] a
  have p1: "filled_by_trades (heap s) (heap s1) (orders best) new1"
    and f1: "\<forall>x. x \<noteq> incoming \<longrightarrow> x \<notin> set (take (length new1) (orders best))
                \<longrightarrow> heap s1 x = heap s x"
    and i1: "filled_qty (heap s1 incoming) =
               filled_qty (heap s incoming) + sum_list (map trade_quantity new1)"
    by simp_all
  from step(10) b
  have p2: "filled_by_trades (heap s1) (heap s') (ladder_refs (opposite sd ?nb)) new2"
    and f2: "\<forall>x. x \<noteq> incoming \<longrightarrow>
                x \<notin> set (take (length new2) (ladder_refs (opposite sd ?nb)))
                \<longrightarrow> heap s' x = heap s1 x"
    and i2: "filled_qty (heap s' incoming) =
               filled_qty (heap s1 incoming) + sum_list (map trade_quantity new2)"
    by simp_all
  from step(5) have di: "distinct (orders best @ ladder_refs rest)"
    and ni: "incoming \<notin> set (orders best)" "incoming \<notin> set (ladder_refs rest)"
    by (auto simp: level_inv_unfold)
  note len1 = filled_by_trades_length[OF p1]
  show ?case
  proof (cases "level_empty lvl1")
    case True
    with pml_consumed[OF step(5,6)] a have l1: "length new1 = length (orders best)" by simp
    from True have opp: "opposite sd ?nb = rest" by simp
    have c1: "\<forall>x\<in>set (orders best). heap s x = heap s x \<and> heap s' x = heap s1 x"
    proof
      fix x assume x: "x \<in> set (orders best)"
      with di ni have "x \<noteq> incoming" "x \<notin> set (ladder_refs rest)" by auto
      then have "x \<notin> set (take (length new2) (ladder_refs rest))"
        by (metis in_set_takeD)
      with f2 opp \<open>x \<noteq> incoming\<close> show "heap s x = heap s x \<and> heap s' x = heap s1 x" by simp
    qed
    have c2: "\<forall>x\<in>set (ladder_refs rest). heap s x = heap s1 x \<and> heap s' x = heap s' x"
    proof
      fix x assume x: "x \<in> set (ladder_refs rest)"
      with di ni have "x \<noteq> incoming" "x \<notin> set (orders best)" by auto
      then have "x \<notin> set (take (length new1) (orders best))"
        by (metis in_set_takeD)
      with f1 \<open>x \<noteq> incoming\<close> show "heap s x = heap s1 x \<and> heap s' x = heap s' x" by simp
    qed
    from p1 filled_by_trades_cong[OF c1, of new1]
    have q1: "filled_by_trades (heap s) (heap s') (orders best) new1" by simp
    from p2 opp filled_by_trades_cong[OF c2, of new2]
    have q2: "filled_by_trades (heap s) (heap s') (ladder_refs rest) new2" by simp
    have fr: "\<forall>x. x \<noteq> incoming \<longrightarrow>
                x \<notin> set (orders best @ take (length new2) (ladder_refs rest))
                \<longrightarrow> heap s' x = heap s x"
      using f1 f2 opp l1 by auto
    from filled_by_trades_append[OF q1 l1 q2] fr i1 i2 show ?thesis
      by (simp add: a b step(2) l1 add.assoc)
  next
    case False
    with pml_exit[OF step(5,6)] have z: "get_remaining_qty (heap s1 incoming) = 0" by simp
    from match_loop_stop_result[OF step(9)] z have st: "s' = ?nb" "trades' = trades1" by simp_all
    with b have n2: "new2 = []" by simp
    from st have hs: "heap s' = heap s1" by simp
    from filled_by_trades_extend[OF p1] f1 i1 len1 show ?thesis
      by (simp add: a b n2 hs step(2))
  qed
qed

lemma match_loop_index:
  assumes "match_inv s incoming"
    and "match_loop sd s incoming trades = Inr (s', trades')"
  shows "order_map s' oid = Some r \<Longrightarrow> order_map s oid = Some r"
    and "set (book_refs s') \<subseteq> set (book_refs s)"
proof -
  note fr = match_loop_frame[OF assms]
  from fr show "order_map s' oid = Some r \<Longrightarrow> order_map s oid = Some r"
    by (simp add: loop_frame_def)
  from fr show "set (book_refs s') \<subseteq> set (book_refs s)"
    by (auto simp: set_book_refs[of _ sd])
qed

lemma with_new_order_heap_below [simp]:
  "r < heap_top s \<Longrightarrow> heap (with_new_order s p qty sd ty) r = heap s r"
  by simp

lemma accepted_trades_priced:
  assumes bi: "book_inv s"
    and ml: "match_loop sd (with_new_order s p qty sd ty) (heap_top s) [] = Inr (s2, trades)"
  shows "priced_by_book (heap s) sd (next_order_id s) qty (walk_order (opposite sd s)) trades"
proof -
  let ?s1 = "with_new_order s p qty sd ty"
  note mi = with_new_order_match_inv[OF bi, of p qty sd ty]
  from match_loop_priced[OF mi ml]
  have a: "priced_by_book (heap ?s1) sd (next_order_id s) qty (walk_order (opposite sd s)) trades"
    by simp
  from bi have "\<forall>r\<in>set (book_refs s). r < heap_top s"
    by (simp add: book_inv_def list_all_iff)
  then have "\<forall>r\<in>set (ladder_refs (opposite sd s)). heap ?s1 r = heap s r"
    by (auto simp: set_book_refs[of s sd])
  then have "\<forall>x\<in>set (walk_order (opposite sd s)). heap ?s1 (snd x) = heap s (snd x)"
    by (simp add: walk_order_refs[symmetric])
  from priced_by_book_cong[OF this] a show ?thesis by simp
qed

section \<open>Runs of calls\<close>

lemma do_call_book_inv:
  assumes "book_inv s"
  shows "\<exists>rep trades s'. do_call c s = Inr (rep, trades, s') \<and> book_inv s'"
proof (cases c)
  case (AddOrder p qty sd ty)
  from add_order_run_total[OF assms, of p qty sd ty] obtain oid trades s'
    where r: "add_order_run s p qty sd ty = Inr (oid, trades, s')" by blast
  from add_order_run_book_inv[OF assms r] r AddOrder show ?thesis by simp
next
  case (AddMarketOrder qty sd)
  from add_market_order_total[OF assms, of qty sd] obtain trades s'
    where r: "add_market_order s qty sd = Inr (trades, s')" by blast
  from add_market_order_book_inv[OF assms r] r AddMarketOrder show ?thesis by simp
next
  case (CancelOrder oid)
  from cancel_order_book_inv[OF assms, of oid] CancelOrder show ?thesis
    by (cases "cancel_order s oid") simp
next
  case Clear
  then show ?thesis by (simp add: clear_book_inv)
qed

lemma run_book_inv:
  "book_inv s \<Longrightarrow> \<exists>evs s'. run cs s = Inr (evs, s') \<and> book_inv s'"
proof (induction cs arbitrary: s)
  case Nil
  then show ?case by simp
next
  case (Cons c cs)
  from do_call_book_inv[OF Cons.prems, of c] obtain rep trades s1
    where d: "do_call c s = Inr (rep, trades, s1)" and b: "book_inv s1" by blast
  from Cons.IH[OF b] obtain evs s' where "run cs s1 = Inr (evs, s')" "book_inv s'" by blast
  with d show ?case by simp
qed

lemma run_ctor_book_inv:
  "\<exists>evs s. run cs OrderBook_ctor = Inr (evs, s) \<and> book_inv s"
  by (rule run_book_inv[OF ctor_book_inv])

lemma reachable_book_inv:
  assumes "reachable s"
  shows "book_inv s"
proof -
  from assms obtain cs evs where r: "run cs OrderBook_ctor = Inr (evs, s)"
    unfolding reachable_def by blast
  from run_book_inv[OF ctor_book_inv, of cs] r show ?thesis by simp
qed

lemma after_match_simps [simp]:
  "heap (after_match s s2 p sd ty) = heap s2"
  "heap_top (after_match s s2 p sd ty) = heap_top s2"
  "next_order_id (after_match s s2 p sd ty) = next_order_id s2"
  "next_trade_id (after_match s s2 p sd ty) = next_trade_id s2"
  "total_trades (after_match s s2 p sd ty) = total_trades s2"
  "total_volume (after_match s s2 p sd ty) = total_volume s2"
  "opposite sd (after_match s s2 p sd ty) = opposite sd s2"
  by (simp_all add: after_match_def)

lemma accepted_conserved:
  assumes bi: "book_inv s"
    and ml: "match_loop sd (with_new_order s p qty sd ty) (heap_top s) [] = Inr (s2, trades)"
    and s': "heap s' = heap s2" "total_volume s' = total_volume s2 + sum_list (map trade_quantity trades)"
  shows "conserved s sd trades s'"
proof -
  let ?s1 = "with_new_order s p qty sd ty"
  note mi = with_new_order_match_inv[OF bi, of p qty sd ty]
  from match_loop_filled[OF mi ml]
  have a: "filled_by_trades (heap ?s1) (heap s2) (ladder_refs (opposite sd s)) trades"
    and b: "\<forall>x. x \<noteq> heap_top s \<longrightarrow>
                x \<notin> set (take (length trades) (ladder_refs (opposite sd s)))
                \<longrightarrow> heap s2 x = heap ?s1 x"
    and c: "filled_qty (heap s2 (heap_top s)) = sum_list (map trade_quantity trades)"
    by simp_all
  from bi have lt: "\<forall>r\<in>set (book_refs s). r < heap_top s"
    by (simp add: book_inv_def list_all_iff)
  then have "\<forall>r\<in>set (ladder_refs (opposite sd s)). heap ?s1 r = heap s r \<and> heap s2 r = heap s2 r"
    by (auto simp: set_book_refs[of s sd])
  from filled_by_trades_cong[OF this] a
  have a': "filled_by_trades (heap s) (heap s2) (ladder_refs (opposite sd s)) trades" by simp
  have b': "list_all (\<lambda>r. r \<in> set (take (length trades) (ladder_refs (opposite sd s)))
                       \<or> filled_qty (heap s2 r) = filled_qty (heap s r)) [0..<heap_top s]"
    unfolding list_all_iff
  proof
    fix r assume "r \<in> set [0..<heap_top s]"
    then have "r \<noteq> heap_top s" by simp
    with b show "r \<in> set (take (length trades) (ladder_refs (opposite sd s)))
                       \<or> filled_qty (heap s2 r) = filled_qty (heap s r)"
      by (cases "r \<in> set (take (length trades) (ladder_refs (opposite sd s)))") simp_all
  qed
  from match_loop_static(5)[OF mi ml] have v: "total_volume s2 = total_volume s" by simp
  from a' b' c v s' show ?thesis by (simp add: conserved_def)
qed

lemma add_order_run_conserved:
  assumes "book_inv s" and r: "add_order_run s p qty sd ty = Inr (oid, trades, s')"
  shows "conserved s sd trades s'"
proof (cases "valid_params p qty ty")
  case False
  with r show ?thesis by (auto simp: add_order_run_rejected conserved_def list_all_iff)
next
  case True
  from add_order_run_accepted[OF assms(1) True, of sd] obtain s2 trades2 where
    ml: "match_loop sd (with_new_order s p qty sd ty) (heap_top s) [] = Inr (s2, trades2)" and
    eq: "add_order_run s p qty sd ty =
         Inr (next_order_id s, trades2, update_statistics trades2 (after_match s s2 p sd ty))"
    by blast
  from eq r have t: "trades2 = trades" and s': "s' = update_statistics trades (after_match s s2 p sd ty)"
    by simp_all
  show ?thesis
    by (rule accepted_conserved[OF assms(1) ml[unfolded t]]) (simp_all add: s')
qed

lemma add_market_order_conserved:
  assumes "book_inv s" and r: "add_market_order s qty sd = Inr (trades, s')"
  shows "conserved s sd trades s'"
proof (cases "qty = 0")
  case True
  with r show ?thesis by (auto simp: add_market_order_zero conserved_def list_all_iff)
next
  case False
  from add_market_order_accepted[OF assms(1) False, of sd] obtain s2 trades2 where
    ml: "match_loop sd (with_new_order s 0 qty sd MARKET) (heap_top s) [] = Inr (s2, trades2)" and
    eq: "add_market_order s qty sd = Inr (trades2, update_statistics trades2 s2)"
    by blast
  from eq r have t: "trades2 = trades" and s': "s' = update_statistics trades s2"
    by simp_all
  show ?thesis
    by (rule accepted_conserved[OF assms(1) ml[unfolded t]]) (simp_all add: s')
qed

lemma cancel_order_counters [simp]:
  "total_volume (snd (cancel_order s oid)) = total_volume s"
  "total_trades (snd (cancel_order s oid)) = total_trades s"
  "next_order_id (snd (cancel_order s oid)) = next_order_id s"
  "next_trade_id (snd (cancel_order s oid)) = next_trade_id s"
  "heap_top (snd (cancel_order s oid)) = heap_top s"
  by (auto simp: cancel_order_def Let_def split: option.splits prod.splits)

lemma do_call_volume:
  assumes "book_inv s" and "do_call c s = Inr (rep, trades, s')"
  shows "total_volume s' = (if c = Clear then 0
                            else total_volume s + sum_list (map trade_quantity trades))"
proof (cases c)
  case (AddOrder p qty sd ty)
  with assms(2) obtain oid where "add_order_run s p qty sd ty = Inr (oid, trades, s')"
    by (auto split: sum.splits)
  from add_order_run_conserved[OF assms(1) this] AddOrder show ?thesis
    by (simp add: conserved_def)
next
  case (AddMarketOrder qty sd)
  with assms(2) have "add_market_order s qty sd = Inr (trades, s')"
    by (auto split: sum.splits)
  from add_market_order_conserved[OF assms(1) this] AddMarketOrder show ?thesis
    by (simp add: conserved_def)
next
  case (CancelOrder oid)
  with assms(2) show ?thesis by (auto split: prod.splits) (metis cancel_order_counters(1) snd_conv)
next
  case Clear
  with assms(2) show ?thesis by (auto simp: clear_def)
qed

lemma do_call_keeps_book_inv:
  assumes "book_inv s" and "do_call c s = Inr (rep, trades, s')"
  shows "book_inv s'"
  using do_call_book_inv[OF assms(1), of c] assms(2) by auto

lemma run_volume:
  "book_inv s \<Longrightarrow> run cs s = Inr (evs, s') \<Longrightarrow>
   total_volume s = sum_list (map trade_quantity acc) \<Longrightarrow>
   total_volume s' = sum_list (map trade_quantity (trades_since_clear evs acc))"
proof (induction cs arbitrary: s evs acc)
  case Nil
  then show ?case by simp
next
  case (Cons c cs)
  from Cons.prems(2) obtain rep trades s1 evs1 where
    d: "do_call c s = Inr (rep, trades, s1)" and r: "run cs s1 = Inr (evs1, s')"
    and e: "evs = (c, rep, trades) # evs1"
    by (auto split: sum.splits)
  note b1 = do_call_keeps_book_inv[OF Cons.prems(1) d]
  from do_call_volume[OF Cons.prems(1) d] Cons.prems(3)
  have "total_volume s1 = sum_list (map trade_quantity (if c = Clear then [] else acc @ trades))"
    by simp
  from Cons.IH[OF b1 r this] e show ?case by simp
qed

lemma aggregate_ok_add_order:
  "aggregate_ok h lvl \<Longrightarrow> aggregate_ok h (level_add_order h ro lvl)"
  by (cases ro) (simp_all add: aggregate_ok_def level_add_order_def)

lemma aggregate_ok_remove_order:
  assumes "aggregate_ok h lvl"
  shows "aggregate_ok h (snd (remove_order h oid lvl))"
proof -
  from level_sum_filter[of h "\<lambda>r. order_id (h r) = oid" "orders lvl"]
  have "level_sum h (filter (\<lambda>r. order_id (h r) \<noteq> oid) (orders lvl))
        = level_sum h (orders lvl) - level_sum h (filter (\<lambda>r. order_id (h r) = oid) (orders lvl))"
    by (simp add: algebra_simps)
  with assms show ?thesis
    by (simp add: remove_order_eq aggregate_ok_def level_sum_def)
qed

lemma aggregate_ok_pop_front_order:
  "aggregate_ok h lvl \<Longrightarrow> aggregate_ok h (pop_front_order h lvl)"
  by (cases "orders lvl") (simp_all add: aggregate_ok_def pop_front_order_def)

lemma update_quantity_total:
  "total_quantity (update_quantity old new lvl) = total_quantity lvl - (old - new)"
  by (simp add: update_quantity_def)

lemma orders_update_quantity [simp]:
  "orders (update_quantity old new lvl) = orders lvl"
  by (simp add: update_quantity_def)

lemma level_sum_store_other:
  "r \<notin> set q \<Longrightarrow> level_sum (store h r od) q = level_sum h q"
  by (induction q) (auto simp: store_def)

lemma aggregate_ok_match_front:
  assumes ok: "aggregate_ok (heap s) lvl"
    and ord: "orders lvl = r # rest" and nr: "r \<notin> set rest"
    and ni: "incoming \<notin> set (orders lvl)"
    and mf: "match_front s incoming lvl tp r = Inr (s', lvl', t)"
  shows "aggregate_ok (heap s') lvl'"
proof -
  define q where "q = min (get_remaining_qty (heap s incoming)) (get_remaining_qty (heap s r))"
  from ni ord have neq: "incoming \<noteq> r" and nir: "incoming \<notin> set rest" by auto
  from mf obtain inc' where f1: "fill q (heap s incoming) = Inr inc'"
    by (auto simp: match_front_def Let_def q_def split: sum.splits)
  from mf f1 neq obtain res' where f2: "fill q (heap s r) = Inr res'"
    by (auto simp: match_front_def Let_def q_def store_def split: sum.splits)
  let ?h2 = "store (store (heap s) incoming inc') r res'"
  let ?lvl1 = "update_quantity (get_remaining_qty (heap s r)) (get_remaining_qty res') lvl"
  from mf f1 f2 neq have res:
    "heap s' = ?h2"
    "lvl' = (if is_fully_filled res' then pop_front_order ?h2 ?lvl1 else ?lvl1)"
    by (auto simp: match_front_def Let_def q_def[symmetric] store_def split: if_splits)
  have rest: "level_sum ?h2 rest = level_sum (heap s) rest"
    using nr nir by (simp add: level_sum_store_other)
  have front: "get_remaining_qty (?h2 r) = get_remaining_qty (heap s r) - q"
    using fill_Inr_remaining[OF f2] by (simp add: store_def)
  have "total_quantity ?lvl1 = total_quantity lvl - q"
    by (simp add: update_quantity_total fill_Inr_remaining[OF f2])
  with ok ord rest front have "aggregate_ok ?h2 ?lvl1"
    by (simp add: aggregate_ok_def)
  with res show ?thesis by (simp add: aggregate_ok_pop_front_order)
qed

lemma book_inv_aggregate_ok:
  assumes "book_inv s"
  shows "list_all (\<lambda>(k, lvl). aggregate_ok (heap s) lvl) (bids s @ asks s)"
  using assms
  by (auto simp: book_inv_def ladder_ok_def level_ok_def aggregate_ok_def list_all_iff)

lemma issues_refl: "issues s 0 [] s"
  by (simp add: issues_def list_all_iff)

lemma accepted_issues:
  assumes bi: "book_inv s"
    and ml: "match_loop sd (with_new_order s p qty sd ty) (heap_top s) [] = Inr (s2, trades)"
    and s': "heap s' = heap s2" "heap_top s' = heap_top s2" "next_order_id s' = next_order_id s2"
      "next_trade_id s' = next_trade_id s2"
  shows "issues s 1 trades s'"
proof -
  let ?s1 = "with_new_order s p qty sd ty"
  note mi = with_new_order_match_inv[OF bi, of p qty sd ty]
  have ids: "order_id (heap s2 r) = order_id (heap ?s1 r)" for r
    using match_loop_static(1)[OF mi ml, of r] by (simp add: same_static_def)
  from match_loop_static(2,3)[OF mi ml]
  have c: "heap_top s2 = heap_top s + 1" "next_order_id s2 = next_order_id s + 1" by simp_all
  from match_loop_trade_ids[OF mi ml]
  have t: "consecutive_from (next_trade_id s) (map trade_id trades)"
    "next_trade_id s2 = next_trade_id s + of_nat (length trades)" by simp_all
  show ?thesis
    using c t s' by (simp add: issues_def ids list_all_iff)
qed

lemma add_order_run_issues:
  assumes "book_inv s" and r: "add_order_run s p qty sd ty = Inr (oid, trades, s')"
  shows "if valid_params p qty ty then oid = next_order_id s \<and> issues s 1 trades s'
         else oid = 0 \<and> trades = [] \<and> s' = s"
proof (cases "valid_params p qty ty")
  case False
  with r show ?thesis by (simp add: add_order_run_rejected)
next
  case True
  from add_order_run_accepted[OF assms(1) True, of sd] obtain s2 trades2 where
    ml: "match_loop sd (with_new_order s p qty sd ty) (heap_top s) [] = Inr (s2, trades2)" and
    eq: "add_order_run s p qty sd ty =
         Inr (next_order_id s, trades2, update_statistics trades2 (after_match s s2 p sd ty))"
    by blast
  from eq r have t: "trades2 = trades" and s': "s' = update_statistics trades (after_match s s2 p sd ty)"
    and o: "oid = next_order_id s"
    by simp_all
  have "issues s 1 trades s'"
    by (rule accepted_issues[OF assms(1) ml[unfolded t]]) (simp_all add: s')
  with True o show ?thesis by simp
qed

lemma add_market_order_issues:
  assumes "book_inv s" and r: "add_market_order s qty sd = Inr (trades, s')"
  shows "if qty = 0 then trades = [] \<and> s' = s else issues s 1 trades s'"
proof (cases "qty = 0")
  case True
  with r show ?thesis by (simp add: add_market_order_zero)
next
  case False
  from add_market_order_accepted[OF assms(1) False, of sd] obtain s2 trades2 where
    ml: "match_loop sd (with_new_order s 0 qty sd MARKET) (heap_top s) [] = Inr (s2, trades2)" and
    eq: "add_market_order s qty sd = Inr (trades2, update_statistics trades2 s2)"
    by blast
  from eq r have t: "trades2 = trades" and s': "s' = update_statistics trades s2"
    by simp_all
  have "issues s 1 trades s'"
    by (rule accepted_issues[OF assms(1) ml[unfolded t]]) (simp_all add: s')
  with False show ?thesis by simp
qed

lemma cancel_order_ids:
  "order_id (heap (snd (cancel_order s oid)) r) = order_id (heap s r)"
  by (auto simp: cancel_order_def Let_def store_def split: option.splits prod.splits)

lemma do_call_issues:
  assumes "book_inv s" and "do_call c s = Inr (rep, trades, s')"
  shows "issues s (if accepts c then 1 else 0) trades s'"
proof (cases c)
  case (AddOrder p qty sd ty)
  with assms(2) obtain oid where "add_order_run s p qty sd ty = Inr (oid, trades, s')"
    by (auto split: sum.splits)
  from add_order_run_issues[OF assms(1) this] AddOrder show ?thesis
    by (auto simp: valid_params_def issues_refl split: if_splits)
next
  case (AddMarketOrder qty sd)
  with assms(2) have "add_market_order s qty sd = Inr (trades, s')"
    by (auto split: sum.splits)
  from add_market_order_issues[OF assms(1) this] AddMarketOrder show ?thesis
    by (auto simp: issues_refl split: if_splits)
next
  case (CancelOrder oid)
  with assms(2) have "s' = snd (cancel_order s oid)" "trades = []"
    by (auto split: prod.splits)
  with CancelOrder show ?thesis
    by (simp add: issues_def cancel_order_ids list_all_iff)
next
  case Clear
  with assms(2) show ?thesis by (auto simp: clear_def issues_def list_all_iff)
qed

lemma all_trades_Cons [simp]: "all_trades ((c, rep, trades) # evs) = trades @ all_trades evs"
  by (simp add: all_trades_def)

lemma all_trades_Nil [simp]: "all_trades [] = []"
  by (simp add: all_trades_def)

lemma run_issues:
  "book_inv s \<Longrightarrow> run cs s = Inr (evs, s') \<Longrightarrow>
   heap_top s' = heap_top s + length (filter accepts cs)
   \<and> next_order_id s' = next_order_id s + of_nat (length (filter accepts cs))
   \<and> (\<forall>r<heap_top s. order_id (heap s' r) = order_id (heap s r))
   \<and> consecutive_from (next_order_id s) (map (\<lambda>r. order_id (heap s' r)) [heap_top s..<heap_top s'])
   \<and> consecutive_from (next_trade_id s) (map trade_id (all_trades evs))
   \<and> next_trade_id s' = next_trade_id s + of_nat (length (all_trades evs))"
proof (induction cs arbitrary: s evs)
  case Nil
  then show ?case by simp
next
  case (Cons c cs)
  from Cons.prems(2) obtain rep trades s1 evs1 where
    d: "do_call c s = Inr (rep, trades, s1)" and r: "run cs s1 = Inr (evs1, s')"
    and e: "evs = (c, rep, trades) # evs1"
    by (auto split: sum.splits)
  note b1 = do_call_keeps_book_inv[OF Cons.prems(1) d]
  define n :: nat where "n = (if accepts c then 1 else 0)"
  from do_call_issues[OF Cons.prems(1) d] have i: "issues s n trades s1" by (simp add: n_def)
  then have i1: "heap_top s1 = heap_top s + n" "next_order_id s1 = next_order_id s + of_nat n"
    "\<forall>r<heap_top s. order_id (heap s1 r) = order_id (heap s r)"
    "n = 0 \<or> order_id (heap s1 (heap_top s)) = next_order_id s"
    "consecutive_from (next_trade_id s) (map trade_id trades)"
    "next_trade_id s1 = next_trade_id s + of_nat (length trades)"
    by (simp_all add: issues_def list_all_iff)
  from Cons.IH[OF b1 r] have ih:
    "heap_top s' = heap_top s1 + length (filter accepts cs)"
    "next_order_id s' = next_order_id s1 + of_nat (length (filter accepts cs))"
    "\<forall>r<heap_top s1. order_id (heap s' r) = order_id (heap s1 r)"
    "consecutive_from (next_order_id s1) (map (\<lambda>r. order_id (heap s' r)) [heap_top s1..<heap_top s'])"
    "consecutive_from (next_trade_id s1) (map trade_id (all_trades evs1))"
    "next_trade_id s' = next_trade_id s1 + of_nat (length (all_trades evs1))"
    by blast+
  have len: "length (filter accepts (c # cs)) = n + length (filter accepts cs)"
    by (simp add: n_def)
  have a: "heap_top s' = heap_top s + length (filter accepts (c # cs))"
    using ih(1) i1(1) len by simp
  have b: "next_order_id s' = next_order_id s + of_nat (length (filter accepts (c # cs)))"
    using ih(2) i1(2) len by simp
  have c: "\<forall>r<heap_top s. order_id (heap s' r) = order_id (heap s r)"
    using ih(3) i1(1,3) by simp
  have d': "consecutive_from (next_order_id s) (map (\<lambda>r. order_id (heap s' r)) [heap_top s..<heap_top s'])"
  proof (cases "n = 0")
    case True
    with ih(4) i1(1,2) show ?thesis by simp
  next
    case False
    then have n1: "n = 1" by (simp add: n_def split: if_splits)
    with i1(4) have o: "order_id (heap s1 (heap_top s)) = next_order_id s" by simp
    from n1 i1(1) ih(1) have lt: "heap_top s < heap_top s'" by simp
    from ih(3) n1 i1(1) o have o': "order_id (heap s' (heap_top s)) = next_order_id s" by simp
    have "[heap_top s..<heap_top s'] = heap_top s # [heap_top s1..<heap_top s']"
      using lt n1 i1(1) by (simp add: upt_conv_Cons)
    with o' ih(4) n1 i1(2) show ?thesis by simp
  qed
  have t: "consecutive_from (next_trade_id s) (map trade_id (all_trades evs))"
    using i1(5,6) ih(5) e by (simp add: consecutive_from_append)
  have t': "next_trade_id s' = next_trade_id s + of_nat (length (all_trades evs))"
    using i1(6) ih(6) e by simp
  from a b c d' t t' show ?case by blast
qed

lemma run_ctor_issues:
  obtains evs s where "run cs OrderBook_ctor = Inr (evs, s)" "book_inv s"
    "heap_top s = length (filter accepts cs)"
    "next_order_id s = 1 + of_nat (heap_top s)"
    "consecutive_from 1 (issued_order_ids s)"
    "consecutive_from 1 (map trade_id (all_trades evs))"
    "next_trade_id s = 1 + of_nat (length (all_trades evs))"
proof -
  from run_ctor_book_inv[of cs] obtain evs s
    where r: "run cs OrderBook_ctor = Inr (evs, s)" and b: "book_inv s" by blast
  have c0: "heap_top OrderBook_ctor = 0" "next_order_id OrderBook_ctor = 1"
    "next_trade_id OrderBook_ctor = 1"
    by (simp_all add: OrderBook_ctor_def)
  note ri = run_issues[OF ctor_book_inv r, unfolded c0]
  from ri have 1: "heap_top s = length (filter accepts cs)" by simp
  from ri have 2: "next_order_id s = 1 + of_nat (heap_top s)" by simp
  from ri have 3: "consecutive_from 1 (issued_order_ids s)"
    unfolding issued_order_ids_def by blast
  from ri have 4: "consecutive_from 1 (map trade_id (all_trades evs))" by blast
  from ri have 5: "next_trade_id s = 1 + of_nat (length (all_trades evs))" by blast
  from r b 1 2 3 4 5 that show thesis by blast
qed

lemma consecutive_from_nth:
  "consecutive_from n xs \<Longrightarrow> i < length xs \<Longrightarrow> xs ! i = n + of_nat i"
proof (induction xs arbitrary: n i)
  case Nil
  then show ?case by simp
next
  case (Cons x xs)
  show ?case
  proof (cases i)
    case 0
    with Cons.prems show ?thesis by simp
  next
    case (Suc k)
    with Cons.prems Cons.IH[of "n + 1" k] show ?thesis by (simp add: add.assoc)
  qed
qed

lemma unat_one_plus:
  assumes "i < 2 ^ 64 - 1"
  shows "unat (1 + of_nat i :: u64) = i + 1"
proof -
  have "(1 + of_nat i :: u64) = of_nat (i + 1)" by simp
  moreover from assms have "unat (of_nat (i + 1) :: u64) = i + 1"
    by (simp add: unat_of_nat del: of_nat_Suc of_nat_add)
  ultimately show ?thesis by (simp only:)
qed

lemma consecutive_from_unat:
  assumes c: "consecutive_from 1 xs" and len: "length xs < 2 ^ 64"
  shows "map unat xs = [1..<length xs + 1]"
proof (rule nth_equalityI)
  show "length (map unat xs) = length [1..<length xs + 1]"
    by (simp del: upt_Suc)
next
  fix i assume "i < length (map unat xs)"
  then have i: "i < length xs" by simp
  with len have "i < 2 ^ 64 - 1" by simp
  from unat_one_plus[OF this] consecutive_from_nth[OF c i] i
  show "map unat xs ! i = [1..<length xs + 1] ! i"
    by (simp del: upt_Suc)
qed

lemma consecutive_from_increasing:
  assumes c: "consecutive_from 1 xs" and len: "length xs < 2 ^ 64"
  shows "sorted_wrt (<) xs"
proof -
  have "sorted_wrt (<) (map unat xs)"
    unfolding consecutive_from_unat[OF c len] by (rule sorted_wrt_upt)
  then show ?thesis
    by (simp add: sorted_wrt_map word_less_nat_alt[symmetric])
qed

lemma length_issued_order_ids [simp]: "length (issued_order_ids s) = heap_top s"
  by (simp add: issued_order_ids_def)

lemma add_order_run_valid:
  assumes bi: "book_inv s" and vp: "valid_params p qty ty"
  shows "\<exists>trades s'. add_order_run s p qty sd ty = Inr (next_order_id s, trades, s')
           \<and> heap_top s' = heap_top s + 1 \<and> s' \<noteq> s"
proof -
  from add_order_run_accepted[OF bi vp, of sd] obtain s2 trades where
    eq: "add_order_run s p qty sd ty =
         Inr (next_order_id s, trades, update_statistics trades (after_match s s2 p sd ty))"
    by blast
  let ?s' = "update_statistics trades (after_match s s2 p sd ty)"
  from add_order_run_issues[OF bi eq] vp have "issues s 1 trades ?s'" by simp
  then have h: "heap_top ?s' = heap_top s + 1" by (simp add: issues_def)
  have "?s' \<noteq> s"
  proof
    assume "?s' = s"
    then have "heap_top ?s' = heap_top s" by (rule arg_cong)
    with h show False by simp
  qed
  with eq h show ?thesis by blast
qed

lemma Order_ctor_invalid:
  "\<not> valid_params p qty ty \<Longrightarrow> Order_ctor oid p qty sd ty = Inl invalid_argument"
  by (auto simp: Order_ctor_def valid_params_def)

lemma word_one_plus_ge:
  assumes "n < 2 ^ 64 - 1"
  shows "1 \<le> (1 + of_nat n :: u64)"
proof -
  from unat_one_plus[OF assms] have "unat (1 + of_nat n :: u64) = n + 1" .
  then show ?thesis by (simp add: word_le_nat_alt)
qed

lemma map_of_drop_mid:
  "p \<notin> fst ` set pre \<Longrightarrow> p \<notin> fst ` set post \<Longrightarrow> map_of (pre @ post) p = None"
  by (simp add: map_of_eq_None_iff)

lemma map_of_other_mid:
  "k \<noteq> p \<Longrightarrow> map_of (pre @ (p, l) # post) k = map_of (pre @ post) k"
  by (simp add: map_of_append map_add_def split: option.splits)

lemma cancel_order_present:
  assumes bi: "book_inv s" and Some: "order_map s oid = Some od"
  defines "sd \<equiv> order_side (heap s od)" and "p \<equiv> order_price (heap s od)"
  shows "\<exists>lvl s'. map_find (own sd s) p = Some lvl \<and> od \<in> set (orders lvl)
           \<and> cancel_order s oid = (fst (remove_order (heap s') oid lvl), s')
           \<and> fst (remove_order (heap s') oid lvl)
           \<and> order_status (heap s' od) = CANCELLED
           \<and> (\<forall>r. r \<noteq> od \<longrightarrow> heap s' r = heap s r)
           \<and> map_find (own sd s') p =
                (if level_empty (snd (remove_order (heap s') oid lvl)) then None
                 else Some (snd (remove_order (heap s') oid lvl)))
           \<and> (\<forall>k. k \<noteq> p \<longrightarrow> map_find (own sd s') k = map_find (own sd s) k)
           \<and> opposite sd s' = opposite sd s
           \<and> od \<notin> set (book_refs s')
           \<and> order_map s' = umap_erase (order_map s) oid"
proof -
  define h1 where "h1 = store (heap s) od (cancel (heap s od))"
  from bi have si: "side_inv sd s" by (simp add: book_inv_side[of _ sd])
  from bi Some have oid: "order_id (heap s od) = oid" and mem: "od \<in> set (book_refs s)"
    by (auto simp: book_inv_def index_ok_def)
  from si have lo_own: "ladder_ok (heap s) sd (own sd s)"
    and lo_opp: "ladder_ok (heap s) (other_side sd) (opposite sd s)"
    and so: "sorted_wrt (side_cmp sd) (map fst (own sd s))"
    and di: "distinct (ladder_refs (own sd s) @ ladder_refs (opposite sd s))"
    by (simp_all add: side_inv_def ladder_sorted_def)
  have in_own: "od \<in> set (ladder_refs (own sd s))"
  proof (rule ccontr)
    assume "od \<notin> set (ladder_refs (own sd s))"
    with mem have "od \<in> set (ladder_refs (opposite sd s))"
      by (simp add: set_book_refs[of s sd])
    from ref_in_ladder[OF lo_opp this] show False
      by (cases sd) (simp_all add: sd_def other_side_def)
  qed
  from ref_in_ladder[OF lo_own in_own] obtain lvl
    where lv: "(p, lvl) \<in> set (own sd s)" and od_in: "od \<in> set (orders lvl)"
    by (auto simp: p_def)
  from split_list[OF lv] obtain pre post where m: "own sd s = pre @ (p, lvl) # post" by blast
  note keys = sorted_split_keys[OF strict_linear_side_cmp so[unfolded m]]
  define lvl' where "lvl' = snd (remove_order h1 oid lvl)"
  define m' where "m' = (if level_empty lvl' then pre @ post else pre @ (p, lvl') # post)"
  have lc: "ladder_cancel h1 oid p (own sd s) = (fst (remove_order h1 oid lvl), m')"
    by (simp add: m ladder_cancel_mid[OF keys(1)] m'_def lvl'_def)
  define s' where "s' = set_opposite (other_side sd) m'
                     (s\<lparr>heap := h1, order_map := umap_erase (order_map s) oid\<rparr>)"
  have res: "cancel_order s oid = (fst (remove_order h1 oid lvl), s')"
    using lc by (simp add: cancel_order_found[OF Some] Let_def sd_def[symmetric] p_def[symmetric]
        h1_def[symmetric] s'_def)
  have s'f: "own sd s' = m'" "opposite sd s' = opposite sd s" "heap s' = h1"
    "order_map s' = umap_erase (order_map s) oid"
    by (simp_all add: s'_def)
  have f0: "map_find (own sd s) p = Some lvl"
    unfolding map_find_def m using keys(1) by (rule map_of_mid)
  have h1_id: "order_id (h1 od) = oid" using oid by (simp add: h1_def store_def)
  have found: "fst (remove_order h1 oid lvl)"
    using od_in h1_id by (auto simp: remove_order_eq)
  from lo_own lv od_in have "resting_ok (heap s) sd p od"
    by (auto simp: ladder_ok_def level_ok_def list_all_iff)
  then have "live (heap s od)" by (simp add: resting_ok_def)
  then have st: "order_status (h1 od) = CANCELLED"
    by (simp add: h1_def store_def cancel_live)
  have oth: "\<forall>r. r \<noteq> od \<longrightarrow> h1 r = heap s r" by (simp add: h1_def store_def)
  have f1: "map_find m' p = (if level_empty lvl' then None else Some lvl')"
    unfolding map_find_def m'_def
    using map_of_drop_mid[OF keys] map_of_mid[OF keys(1), of lvl' post] by simp
  have f2: "\<forall>k. k \<noteq> p \<longrightarrow> map_find m' k = map_find (own sd s) k"
    unfolding map_find_def m'_def m
    by (auto simp: map_of_other_mid[of _ p pre _ post] simp del: map_of_append)
  have ord': "orders lvl' = filter (\<lambda>r. order_id (h1 r) \<noteq> oid) (orders lvl)"
    by (simp add: lvl'_def remove_order_eq)
  have refs': "ladder_refs m' = ladder_refs pre @ orders lvl' @ ladder_refs post"
    by (simp add: m'_def level_empty_def)
  from di od_in m have "od \<notin> set (ladder_refs pre)" "od \<notin> set (ladder_refs post)"
    "od \<notin> set (ladder_refs (opposite sd s))"
    by auto
  with h1_id have gone: "od \<notin> set (book_refs s')"
    by (simp add: set_book_refs[of s' sd] s'f refs' ord')
  show ?thesis
    apply (rule exI[of _ lvl], rule exI[of _ s'])
    unfolding s'f
    using f0 od_in res found st oth f1 f2 gone lvl'_def
    apply simp
    done
qed

lemma cancel_order_erases: "order_map (snd (cancel_order s oid)) oid = None"
proof (cases "order_map s oid")
  case None
  then show ?thesis by (simp add: cancel_order_def)
next
  case (Some od)
  show ?thesis
    by (simp add: cancel_order_found[OF Some] Let_def umap_erase_def)
qed

lemma cancel_order_absent: "order_map s oid = None \<Longrightarrow> cancel_order s oid = (False, s)"
  by (simp add: cancel_order_def)

lemma map_find_ladder_insert:
  assumes sl: "strict_linear cmp"
  shows "sorted_wrt cmp (map fst m) \<Longrightarrow>
     map_find (ladder_insert cmp h p od m) p =
       Some (add_to h od (case map_find m p of None \<Rightarrow> PriceLevel_ctor p | Some l \<Rightarrow> l))
     \<and> (\<forall>k. k \<noteq> p \<longrightarrow> map_find (ladder_insert cmp h p od m) k = map_find m k)"
proof (induction m)
  case Nil
  then show ?case by (simp add: ladder_insert_Nil map_find_def)
next
  case (Cons kv m)
  obtain k v where kv: "kv = (k, v)" by (cases kv)
  from Cons.prems kv have so: "sorted_wrt cmp (k # map fst m)" by simp
  note eq = ladder_insert_Cons[OF sl so, of h p od v]
  show ?case
  proof (cases "p = k")
    case True
    with kv eq show ?thesis by (simp add: map_find_def)
  next
    case False
    show ?thesis
    proof (cases "cmp p k")
      case True
      from sorted_key_absent[OF sl so True] False True kv eq show ?thesis
        by (simp add: map_find_def)
    next
      case nc: False
      from Cons.prems kv have "sorted_wrt cmp (map fst m)" by simp
      from Cons.IH[OF this] False nc kv eq show ?thesis
        by (simp add: map_find_def)
    qed
  qed
qed

lemma accepted_residual:
  assumes bi: "book_inv s"
    and ml: "match_loop sd (with_new_order s p qty sd ty) (heap_top s) [] = Inr (s2, trades)"
  shows "heap_top s \<notin> set (book_refs s2)" and "own sd s2 = own sd s"
    and "\<forall>i. order_map s2 i \<noteq> Some (heap_top s)"
    and "sorted_wrt (side_cmp sd) (map fst (own sd s2))"
    and "order_id (heap s2 (heap_top s)) = next_order_id s"
    and "ladder_ok (heap s2) sd (own sd s2)"
proof -
  note mi = with_new_order_match_inv[OF bi, of p qty sd ty]
  from match_loop_inv[OF mi ml] have mi2: "match_inv s2 (heap_top s)" by simp
  then show a: "heap_top s \<notin> set (book_refs s2)" by (simp add: match_inv_def)
  from match_loop_frame[OF mi ml] show "own sd s2 = own sd s" by (simp add: own_def)
  from mi2 have b2: "book_inv s2" by (simp add: match_inv_def)
  then have "index_ok s2" by (simp add: book_inv_def)
  with a show "\<forall>i. order_map s2 i \<noteq> Some (heap_top s)" by (auto simp: index_ok_def)
  from b2 have si: "side_inv sd s2" by (simp add: book_inv_side[of _ sd])
  then show "sorted_wrt (side_cmp sd) (map fst (own sd s2))"
    by (simp add: side_inv_def ladder_sorted_def)
  from match_loop_static(1)[OF mi ml, of "heap_top s"]
  show "order_id (heap s2 (heap_top s)) = next_order_id s" by (simp add: same_static_def)
  from si show "ladder_ok (heap s2) sd (own sd s2)" by (simp add: side_inv_def)
qed

lemma own_update_statistics [simp]:
  "own sd (update_statistics trades s) = own sd s"
  by (simp add: own_def)

lemma book_inv_fresh:
  assumes "book_inv s"
  shows "heap_top s \<notin> set (book_refs s)" and "\<forall>i. order_map s i \<noteq> Some (heap_top s)"
proof -
  from assms have "\<forall>r\<in>set (book_refs s). r < heap_top s"
    by (simp add: book_inv_def list_all_iff)
  then show a: "heap_top s \<notin> set (book_refs s)" by auto
  from assms have "index_ok s" by (simp add: book_inv_def)
  with a show "\<forall>i. order_map s i \<noteq> Some (heap_top s)" by (auto simp: index_ok_def)
qed

lemma level_price_add_to [simp]: "level_price (add_to h od lvl) = level_price lvl"
  by (simp add: level_add_order_def)

lemma add_order_run_residual:
  assumes bi: "book_inv s" and r: "add_order_run s p qty sd ty = Inr (oid, trades, s')"
  shows "if valid_params p qty ty \<and> ty = LIMIT \<and> get_remaining_qty (heap s' (heap_top s)) \<noteq> 0
         then order_map s' oid = Some (heap_top s)
              \<and> order_id (heap s' (heap_top s)) = oid
              \<and> (\<exists>lvl. map_find (own sd s') p = Some lvl \<and> level_price lvl = p
                    \<and> orders lvl = (case map_find (own sd s) p of None \<Rightarrow> [] | Some l \<Rightarrow> orders l)
                                   @ [heap_top s])
              \<and> (\<forall>k. k \<noteq> p \<longrightarrow> map_find (own sd s') k = map_find (own sd s) k)
         else heap_top s \<notin> set (book_refs s') \<and> (\<forall>i. order_map s' i \<noteq> Some (heap_top s))
              \<and> own sd s' = own sd s"
proof (cases "valid_params p qty ty")
  case False
  with r have "s' = s" by (simp add: add_order_run_rejected)
  with False book_inv_fresh[OF bi] show ?thesis by simp
next
  case True
  from add_order_run_accepted[OF bi True, of sd] obtain s2 trades2 where
    ml: "match_loop sd (with_new_order s p qty sd ty) (heap_top s) [] = Inr (s2, trades2)" and
    eq: "add_order_run s p qty sd ty =
         Inr (next_order_id s, trades2, update_statistics trades2 (after_match s s2 p sd ty))"
    by blast
  from eq r have s': "s' = update_statistics trades2 (after_match s s2 p sd ty)"
    and o: "oid = next_order_id s"
    by simp_all
  note ar = accepted_residual[OF bi ml]
  show ?thesis
  proof (cases "ty = LIMIT \<and> get_remaining_qty (heap s2 (heap_top s)) \<noteq> 0")
    case False
    then have "after_match s s2 p sd ty = s2" by (auto simp: after_match_def)
    with False True ar(1,2,3) show ?thesis by (auto simp: s')
  next
    case lim: True
    then have am: "after_match s s2 p sd ty = insert_resting s2 (next_order_id s) (heap_top s) p sd"
      by (simp add: after_match_def)
    note mf = map_find_ladder_insert[OF strict_linear_side_cmp ar(4), of "heap s2" p "heap_top s"]
    from ar(6) have lp: "\<And>l. map_find (own sd s2) p = Some l \<Longrightarrow> level_price l = p"
      by (auto simp: map_find_def ladder_ok_def level_ok_def list_all_iff dest: map_of_SomeD)
    have "\<exists>lvl. map_find (own sd s') p = Some lvl \<and> level_price lvl = p
                    \<and> orders lvl = (case map_find (own sd s) p of None \<Rightarrow> [] | Some l \<Rightarrow> orders l)
                                   @ [heap_top s]"
      using mf lp ar(2)
      by (cases "map_find (own sd s2) p") (auto simp: s' am PriceLevel_ctor_def)
    moreover have "\<forall>k. k \<noteq> p \<longrightarrow> map_find (own sd s') k = map_find (own sd s) k"
      using mf ar(2) by (simp add: s' am)
    moreover have "order_map s' oid = Some (heap_top s)"
      by (simp add: s' am o umap_assign_def)
    moreover have "order_id (heap s' (heap_top s)) = oid"
      using ar(5) by (simp add: s' am o)
    ultimately show ?thesis using lim True by (simp add: s' am)
  qed
qed

lemma add_market_order_residual:
  assumes bi: "book_inv s" and r: "add_market_order s qty sd = Inr (trades, s')"
  shows "heap_top s \<notin> set (book_refs s') \<and> (\<forall>i. order_map s' i \<noteq> Some (heap_top s))
         \<and> own sd s' = own sd s"
proof (cases "qty = 0")
  case True
  with r have "s' = s" by (simp add: add_market_order_zero)
  with book_inv_fresh[OF bi] show ?thesis by simp
next
  case False
  from add_market_order_accepted[OF bi False, of sd] obtain s2 trades2 where
    ml: "match_loop sd (with_new_order s 0 qty sd MARKET) (heap_top s) [] = Inr (s2, trades2)" and
    eq: "add_market_order s qty sd = Inr (trades2, update_statistics trades2 s2)"
    by blast
  from eq r have s': "s' = update_statistics trades2 s2" by simp
  from accepted_residual(1,2,3)[OF bi ml] show ?thesis by (simp add: s')
qed

lemma unat_sum_list:
  "unat (sum_list xs :: u64) = sum_list (map unat xs) mod 2 ^ 64"
proof (induction xs)
  case Nil
  then show ?case by simp
next
  case (Cons x xs)
  have "unat (x + sum_list xs) = (unat x + unat (sum_list xs)) mod 2 ^ 64"
    by (simp add: unat_word_ariths)
  also have "\<dots> = (unat x + sum_list (map unat xs) mod 2 ^ 64) mod 2 ^ 64"
    by (simp only: Cons.IH)
  also have "\<dots> = (unat x + sum_list (map unat xs)) mod 2 ^ 64"
    by (rule mod_add_right_eq)
  finally show ?case by simp
qed

lemma level_sum_unat:
  "unat (level_sum h q) = sum_list (map (\<lambda>r. unat (get_remaining_qty (h r))) q) mod 2 ^ 64"
  by (simp add: level_sum_def unat_sum_list comp_def)

lemma run_log_book: "run cs OrderBook_ctor = Inr (run_log cs, run_book cs)"
proof -
  from run_ctor_book_inv[of cs] obtain evs s
    where r: "run cs OrderBook_ctor = Inr (evs, s)" by blast
  then show ?thesis by (simp add: run_log_def run_book_def)
qed

section \<open>Evaluation on concrete books\<close>

lemmas eval_simps =
  run.simps do_call.simps add_order_run_def add_market_order_def cancel_order_def clear_def
  OrderBook_ctor_def make_shared_Order_def Order_ctor_def match_order_def
  match_loop.simps process_matches_at_level.simps match_front_def
  opposite_def set_opposite_def price_crosses_def store_def get_remaining_qty_def fill_def
  is_fully_filled_def cancel_def insert_resting_def ladder_insert_def
  map_find_def map_index_def update_statistics_def Let_def level_empty_def get_front_order_def
  pop_front_order_def update_quantity_def level_add_order_def PriceLevel_ctor_def
  ladder_cancel_def remove_order_def umap_assign_def umap_erase_def greater_def less_def
  get_best_bid_def get_best_ask_def

definition ex_calls :: "call list" where
  "ex_calls = [AddOrder 100 200 SELL LIMIT, AddOrder 101 100 BUY LIMIT, AddOrder 99 50 BUY LIMIT]"

text \<open>A book with three resting sell orders, two of them at the same price.\<close>

definition ex_resting :: "call list" where
  "ex_resting = [AddOrder 100 200 SELL LIMIT, AddOrder 100 300 SELL LIMIT, AddOrder 102 50 SELL LIMIT]"

definition ex_book :: OrderBook where
  "ex_book = (case run ex_resting OrderBook_ctor of Inr (evs, s) \<Rightarrow> s | Inl e \<Rightarrow> OrderBook_ctor)"

lemma ex_book_inv: "book_inv ex_book"
  using run_ctor_book_inv[of ex_resting] by (auto simp: ex_book_def)

lemma ex_book_reachable: "reachable ex_book"
proof -
  from run_ctor_book_inv[of ex_resting] obtain evs s
    where r: "run ex_resting OrderBook_ctor = Inr (evs, s)" by blast
  then have "ex_book = s" by (simp add: ex_book_def)
  with r show ?thesis unfolding reachable_def by blast
qed

lemma ex_book_eq:
  "ex_book =
     \<lparr>bids = [],
      asks = [(100, \<lparr>level_price = 100, total_quantity = 500, orders = [0, 1]\<rparr>),
              (102, \<lparr>level_price = 102, total_quantity = 50, orders = [2]\<rparr>)],
      order_map = ((\<lambda>oid. None)(1 := Some 0, 2 := Some 1, 3 := Some 2)),
      next_order_id = 4, next_trade_id = 1, total_trades = 0, total_volume = 0,
      heap = ((\<lambda>r. no_order)
               (0 := new_order 1 100 200 SELL LIMIT,
                1 := new_order 2 100 300 SELL LIMIT,
                2 := new_order 3 102 50 SELL LIMIT)),
      heap_top = 3\<rparr>"
  by (simp add: ex_book_def ex_resting_def eval_simps new_order_def del: One_nat_def)

text \<open>A run with two trades: a crossing limit buy, then a market sell against its rest.\<close>

definition ex_trading :: "call list" where
  "ex_trading = [AddOrder 100 200 SELL LIMIT, AddOrder 101 250 BUY LIMIT, AddMarketOrder 30 SELL]"

text \<open>The level at 100 of \<open>ex_book\<close>, and \<open>ex_book\<close> with an incoming buy order of 50 at 101.\<close>

definition ex_level :: PriceLevel where
  "ex_level = \<lparr>level_price = 100, total_quantity = 500, orders = [0, 1]\<rparr>"

definition ex_incoming :: OrderBook where
  "ex_incoming = with_new_order ex_book 101 50 BUY LIMIT"

text \<open>A run with a \<^verbatim>\<open>clear\<close> in the middle: two orders and a trade before it, two and a trade after.\<close>

definition ex_cleared :: "call list" where
  "ex_cleared = [AddOrder 100 200 SELL LIMIT, AddOrder 101 250 BUY LIMIT, Clear,
                 AddOrder 100 10 SELL LIMIT, AddMarketOrder 5 BUY]"

text \<open>
  Two runs with quantities near \<open>2^64\<close>: two trades of \<open>2^64 - 1\<close> and 5 shares, and two
  resting orders of \<open>2^63\<close> shares at one price.
\<close>

definition vol_wrap_calls :: "call list" where
  "vol_wrap_calls = [AddOrder 100 18446744073709551615 SELL LIMIT,
                     AddOrder 100 18446744073709551615 BUY LIMIT,
                     AddOrder 100 5 SELL LIMIT, AddOrder 100 5 BUY LIMIT]"

definition agg_wrap_calls :: "call list" where
  "agg_wrap_calls = [AddOrder 100 9223372036854775808 SELL LIMIT,
                     AddOrder 100 9223372036854775808 SELL LIMIT]"

section \<open>Prices that are numbers\<close>

text \<open>
  The prices of the model are real numbers; the code takes a \<^verbatim>\<open>double\<close>. The two price
  tests of \<^verbatim>\<open>add_order\<close>, \<^verbatim>\<open>price < 0.0\<close> and \<^verbatim>\<open>price <= 0.0\<close>, are both false of a NaN, and so
  are the two of \<^verbatim>\<open>Order::Order\<close>, whose message says that a limit price must be positive:
  an order with a NaN price is accepted. Every comparison of a key with a NaN is false
  too, so that \<^verbatim>\<open>find\<close> and \<^verbatim>\<open>operator[]\<close> with a NaN key end at \<^verbatim>\<open>begin()\<close> of a ladder
  that is not empty, and the matching loop never finds that a NaN price crosses. None of
  this is in the model. The three theorems of this section are what the code does for
  calls whose prices are numbers. For a NaN price they say nothing, and the properties
  fail there: after \<^verbatim>\<open>add_order(NaN, 7, BUY, LIMIT)\<close> and \<^verbatim>\<open>add_order(100, 10, SELL, LIMIT)\<close>
  both ladders are non-empty and the best bid is not below the best ask; after
  \<^verbatim>\<open>add_order(99, 5, BUY, LIMIT)\<close> an \<^verbatim>\<open>add_order(NaN, 7, BUY, LIMIT)\<close> queues its order in the
  level at 99; and after a third \<^verbatim>\<open>add_order(99.5, 3, BUY, LIMIT)\<close>, \<^verbatim>\<open>cancel_order(2)\<close> looks
  for that order in the level at 99.5, returns false and leaves it queued at 99.
\<close>

text \<open>
  The uncrossed book (the property of claim C3), for prices that are numbers. Whatever
  calls of \<^verbatim>\<open>add_order\<close>, \<^verbatim>\<open>add_market_order\<close>, \<^verbatim>\<open>cancel_order\<close> and \<^verbatim>\<open>clear\<close> are made on a
  new book, none of them throws, and in the book the last of them leaves, if both ladders
  are non-empty then \<^verbatim>\<open>best_bid < best_ask\<close>. Every prefix of a call sequence is a call
  sequence, so this holds after every call.
\<close>

theorem book_never_crossed:
  "\<exists>evs s. run cs OrderBook_ctor = Inr (evs, s)
     \<and> (\<forall>b a. get_best_bid s = Some b \<longrightarrow> get_best_ask s = Some a \<longrightarrow> b < a)"
proof -
  from run_ctor_book_inv[of cs] obtain evs s
    where r: "run cs OrderBook_ctor = Inr (evs, s)" and b: "book_inv s" by blast
  from b have "uncrossed s" by (simp add: book_inv_def)
  with r show ?thesis by (auto simp: uncrossed_alt)
qed

theorem book_never_crossed_witness:
  "(case run ex_calls OrderBook_ctor of
      Inl e \<Rightarrow> False
    | Inr (evs, s) \<Rightarrow> get_best_bid s = Some 99 \<and> get_best_ask s = Some 100 \<and> (99 :: real) < 100)"
  using book_never_crossed[of ex_calls]
  by (simp add: ex_calls_def eval_simps)

text \<open>
  Residuals (the property of claim C5), for prices that are numbers. On a reachable book,
  the order that an \<^verbatim>\<open>add_order\<close> of type MARKET or an \<^verbatim>\<open>add_market_order\<close> constructs (at the
  address \<open>heap_top s\<close>) is in no queue of the book the call leaves and no index entry
  points to it, whatever is left of it; the ladder of its own side is as before. An
  accepted \<^verbatim>\<open>add_order\<close> of type LIMIT with something left after matching has put its order
  in the index under the returned id, which is the order's id, and at the back of the queue
  of the level at its price in the ladder of its side; that level is a new one, with this
  order alone, if the ladder had none at the price; the other levels of the ladder are as
  before. With nothing left the order is neither in a queue nor in the index.
\<close>

theorem market_residual_discarded_limit_residual_rests:
  assumes "reachable s"
  shows "(add_order_run s p qty sd MARKET = Inr (oid, trades, s') \<longrightarrow>
            heap_top s \<notin> set (book_refs s') \<and> (\<forall>i. order_map s' i \<noteq> Some (heap_top s))
            \<and> own sd s' = own sd s)
       \<and> (add_market_order s qty sd = Inr (trades, s') \<longrightarrow>
            heap_top s \<notin> set (book_refs s') \<and> (\<forall>i. order_map s' i \<noteq> Some (heap_top s))
            \<and> own sd s' = own sd s)
       \<and> (add_order_run s p qty sd LIMIT = Inr (oid, trades, s') \<and> qty \<noteq> 0 \<and> 0 < p \<longrightarrow>
            (if get_remaining_qty (heap s' (heap_top s)) \<noteq> 0
             then order_map s' oid = Some (heap_top s)
                  \<and> order_id (heap s' (heap_top s)) = oid
                  \<and> (\<exists>lvl. map_find (own sd s') p = Some lvl \<and> level_price lvl = p
                        \<and> orders lvl = (case map_find (own sd s) p of None \<Rightarrow> []
                                         | Some l \<Rightarrow> orders l) @ [heap_top s])
                  \<and> (\<forall>k. k \<noteq> p \<longrightarrow> map_find (own sd s') k = map_find (own sd s) k)
             else heap_top s \<notin> set (book_refs s') \<and> (\<forall>i. order_map s' i \<noteq> Some (heap_top s))
                  \<and> own sd s' = own sd s))"
proof (intro conjI impI)
  assume r: "add_order_run s p qty sd MARKET = Inr (oid, trades, s')"
  from add_order_run_residual[OF reachable_book_inv[OF assms] r]
  show "heap_top s \<notin> set (book_refs s')" "\<forall>i. order_map s' i \<noteq> Some (heap_top s)"
    "own sd s' = own sd s"
    by simp_all
next
  assume r: "add_market_order s qty sd = Inr (trades, s')"
  from add_market_order_residual[OF reachable_book_inv[OF assms] r]
  show "heap_top s \<notin> set (book_refs s')" "\<forall>i. order_map s' i \<noteq> Some (heap_top s)"
    "own sd s' = own sd s"
    by simp_all
next
  assume r: "add_order_run s p qty sd LIMIT = Inr (oid, trades, s') \<and> qty \<noteq> 0 \<and> 0 < p"
  then have v: "valid_params p qty LIMIT" by (simp add: valid_params_def)
  from r add_order_run_residual[OF reachable_book_inv[OF assms], of p qty sd LIMIT oid trades s'] v
  show "if get_remaining_qty (heap s' (heap_top s)) \<noteq> 0
             then order_map s' oid = Some (heap_top s)
                  \<and> order_id (heap s' (heap_top s)) = oid
                  \<and> (\<exists>lvl. map_find (own sd s') p = Some lvl \<and> level_price lvl = p
                        \<and> orders lvl = (case map_find (own sd s) p of None \<Rightarrow> []
                                         | Some l \<Rightarrow> orders l) @ [heap_top s])
                  \<and> (\<forall>k. k \<noteq> p \<longrightarrow> map_find (own sd s') k = map_find (own sd s) k)
             else heap_top s \<notin> set (book_refs s') \<and> (\<forall>i. order_map s' i \<noteq> Some (heap_top s))
                  \<and> own sd s' = own sd s"
    by (simp split: if_splits)
qed

theorem market_residual_discarded_limit_residual_rests_witness:
  "reachable ex_book
   \<and> (case add_order_run ex_book 0 600 BUY MARKET of
        Inl e \<Rightarrow> False
      | Inr (oid, trades, s') \<Rightarrow>
          get_remaining_qty (heap s' 3) = 50 \<and> bids s' = [] \<and> asks s' = []
          \<and> 3 \<notin> set (book_refs s') \<and> order_map s' oid = None)
   \<and> (case add_market_order ex_book 600 BUY of
        Inl e \<Rightarrow> False
      | Inr (trades, s') \<Rightarrow>
          get_remaining_qty (heap s' 3) = 50 \<and> bids s' = [] \<and> asks s' = []
          \<and> 3 \<notin> set (book_refs s') \<and> order_map s' 4 = None)
   \<and> (case add_order_run ex_book 101 600 BUY LIMIT of
        Inl e \<Rightarrow> False
      | Inr (oid, trades, s') \<Rightarrow>
          oid = 4 \<and> get_remaining_qty (heap s' 3) = 100 \<and> order_map s' 4 = Some 3
          \<and> bids s' = [(101, \<lparr>level_price = 101, total_quantity = 100, orders = [3]\<rparr>)])
   \<and> (case add_order_run ex_book 100 10 SELL LIMIT of
        Inl e \<Rightarrow> False
      | Inr (oid, trades, s') \<Rightarrow>
          oid = 4 \<and> order_map s' 4 = Some 3
          \<and> map_find (asks s') 100
              = Some \<lparr>level_price = 100, total_quantity = 510, orders = [0, 1, 3]\<rparr>)"
proof -
  have e: "heap_top ex_book = 3" "map_find (own BUY ex_book) 101 = None"
    "own BUY ex_book = []"
    by (simp_all add: ex_book_eq own_def map_find_def)
  have "\<exists>ts s'. add_order_run ex_book 0 600 BUY MARKET = Inr (4, ts, s')
          \<and> get_remaining_qty (heap s' 3) = 50 \<and> asks s' = [] \<and> order_map s' 4 = None"
    by (simp add: ex_book_eq eval_simps new_order_def del: One_nat_def)
  then obtain ts1 s1 where r1: "add_order_run ex_book 0 600 BUY MARKET = Inr (4, ts1, s1)"
    and q1: "get_remaining_qty (heap s1 3) = 50" "asks s1 = []" "order_map s1 4 = None"
    by (elim exE conjE)
  have "\<exists>ts s'. add_market_order ex_book 600 BUY = Inr (ts, s')
          \<and> get_remaining_qty (heap s' 3) = 50 \<and> asks s' = [] \<and> order_map s' 4 = None"
    by (simp add: ex_book_eq eval_simps new_order_def del: One_nat_def)
  then obtain ts2 s2 where r2: "add_market_order ex_book 600 BUY = Inr (ts2, s2)"
    and q2: "get_remaining_qty (heap s2 3) = 50" "asks s2 = []" "order_map s2 4 = None"
    by (elim exE conjE)
  have "\<exists>ts s'. add_order_run ex_book 101 600 BUY LIMIT = Inr (4, ts, s')
          \<and> get_remaining_qty (heap s' 3) = 100
          \<and> bids s' = [(101, \<lparr>level_price = 101, total_quantity = 100, orders = [3]\<rparr>)]"
    by (simp add: ex_book_eq eval_simps new_order_def del: One_nat_def)
  then obtain ts3 s3 where r3: "add_order_run ex_book 101 600 BUY LIMIT = Inr (4, ts3, s3)"
    and q3: "get_remaining_qty (heap s3 3) = 100"
    "bids s3 = [(101, \<lparr>level_price = 101, total_quantity = 100, orders = [3]\<rparr>)]"
    by (elim exE conjE)
  have "\<exists>ts s'. add_order_run ex_book 100 10 SELL LIMIT = Inr (4, ts, s')
          \<and> get_remaining_qty (heap s' 3) = 10
          \<and> map_find (asks s') 100
              = Some \<lparr>level_price = 100, total_quantity = 510, orders = [0, 1, 3]\<rparr>"
    by (simp add: ex_book_eq eval_simps new_order_def del: One_nat_def)
  then obtain ts4 s4 where r4: "add_order_run ex_book 100 10 SELL LIMIT = Inr (4, ts4, s4)"
    and q4: "get_remaining_qty (heap s4 3) = 10" "map_find (asks s4) 100
              = Some \<lparr>level_price = 100, total_quantity = 510, orders = [0, 1, 3]\<rparr>"
    by (elim exE conjE)
  note t = market_residual_discarded_limit_residual_rests[OF ex_book_reachable]
  from t[of 0 600 BUY 4 ts1 s1] r1 e
  have m1: "3 \<notin> set (book_refs s1)" "bids s1 = []"
    by (simp_all add: own_def)
  from t[of 0 600 BUY 4 ts2 s2] r2 e
  have m2: "3 \<notin> set (book_refs s2)" "bids s2 = []"
    by (simp_all add: own_def)
  from t[of 101 600 BUY 4 ts3 s3] r3 q3 e
  have m3: "order_map s3 4 = Some 3" by simp
  from t[of 100 10 SELL 4 ts4 s4] r4 q4 e
  have m4: "order_map s4 4 = Some 3" by simp
  from ex_book_reachable r1 q1 m1 r2 q2 m2 r3 q3 m3 r4 q4 m4 show ?thesis by simp
qed

text \<open>
  Cancel (the property of claim C7), for prices that are numbers. On a reachable book,
  \<^verbatim>\<open>cancel_order\<close> of an id that is not in the index returns false and leaves the book as it
  was. Of an id that the index maps to the order \<open>od\<close>: the order rests in the level \<open>lvl\<close> at
  its price in the ladder of its side; the call returns what \<^verbatim>\<open>remove_order\<close> on that level
  reported, which is true; it sets the status of \<open>od\<close> to CANCELLED and changes no other
  order; the level is replaced by what \<^verbatim>\<open>remove_order\<close> left of it, or erased from the
  ladder if that is empty; the other levels of the ladder and the opposite ladder are as
  before; \<open>od\<close> is in no queue of the book any more; and the id is erased from the index, the
  other entries staying. A second \<^verbatim>\<open>cancel_order\<close> of the same id returns false and changes
  nothing, whatever the first returned.
\<close>

theorem cancel_order_effect:
  assumes "reachable s"
  shows "(order_map s oid = None \<longrightarrow> cancel_order s oid = (False, s))
   \<and> (order_map s oid = Some od \<longrightarrow>
        (\<exists>lvl s'. map_find (own (order_side (heap s od)) s) (order_price (heap s od)) = Some lvl
           \<and> od \<in> set (orders lvl)
           \<and> cancel_order s oid = (fst (remove_order (heap s') oid lvl), s')
           \<and> fst (remove_order (heap s') oid lvl)
           \<and> order_status (heap s' od) = CANCELLED
           \<and> (\<forall>r. r \<noteq> od \<longrightarrow> heap s' r = heap s r)
           \<and> map_find (own (order_side (heap s od)) s') (order_price (heap s od)) =
                (if level_empty (snd (remove_order (heap s') oid lvl)) then None
                 else Some (snd (remove_order (heap s') oid lvl)))
           \<and> (\<forall>k. k \<noteq> order_price (heap s od) \<longrightarrow>
                 map_find (own (order_side (heap s od)) s') k
                 = map_find (own (order_side (heap s od)) s) k)
           \<and> opposite (order_side (heap s od)) s' = opposite (order_side (heap s od)) s
           \<and> od \<notin> set (book_refs s')
           \<and> order_map s' = umap_erase (order_map s) oid))
   \<and> cancel_order (snd (cancel_order s oid)) oid = (False, snd (cancel_order s oid))"
proof (intro conjI impI)
  assume "order_map s oid = None"
  then show "cancel_order s oid = (False, s)" by (rule cancel_order_absent)
next
  assume "order_map s oid = Some od"
  from cancel_order_present[OF reachable_book_inv[OF assms] this]
  show "\<exists>lvl s'. map_find (own (order_side (heap s od)) s) (order_price (heap s od)) = Some lvl
           \<and> od \<in> set (orders lvl)
           \<and> cancel_order s oid = (fst (remove_order (heap s') oid lvl), s')
           \<and> fst (remove_order (heap s') oid lvl)
           \<and> order_status (heap s' od) = CANCELLED
           \<and> (\<forall>r. r \<noteq> od \<longrightarrow> heap s' r = heap s r)
           \<and> map_find (own (order_side (heap s od)) s') (order_price (heap s od)) =
                (if level_empty (snd (remove_order (heap s') oid lvl)) then None
                 else Some (snd (remove_order (heap s') oid lvl)))
           \<and> (\<forall>k. k \<noteq> order_price (heap s od) \<longrightarrow>
                 map_find (own (order_side (heap s od)) s') k
                 = map_find (own (order_side (heap s od)) s) k)
           \<and> opposite (order_side (heap s od)) s' = opposite (order_side (heap s od)) s
           \<and> od \<notin> set (book_refs s')
           \<and> order_map s' = umap_erase (order_map s) oid" .
next
  show "cancel_order (snd (cancel_order s oid)) oid = (False, snd (cancel_order s oid))"
    by (rule cancel_order_absent) (rule cancel_order_erases)
qed

theorem cancel_order_effect_witness:
  "reachable ex_book
   \<and> order_map ex_book 9 = None \<and> cancel_order ex_book 9 = (False, ex_book)
   \<and> order_map ex_book 3 = Some 2
   \<and> (case cancel_order ex_book 3 of
        (removed, s') \<Rightarrow>
          removed \<and> order_status (heap s' 2) = CANCELLED
          \<and> asks s' = [(100, \<lparr>level_price = 100, total_quantity = 500, orders = [0, 1]\<rparr>)]
          \<and> order_map s' 3 = None \<and> 2 \<notin> set (book_refs s')
          \<and> cancel_order s' 3 = (False, s'))
   \<and> (case cancel_order ex_book 2 of
        (removed, s') \<Rightarrow>
          removed \<and> order_status (heap s' 1) = CANCELLED
          \<and> asks s' = [(100, \<lparr>level_price = 100, total_quantity = 200, orders = [0]\<rparr>),
                        (102, \<lparr>level_price = 102, total_quantity = 50, orders = [2]\<rparr>)])"
proof -
  have i: "order_map ex_book 9 = None" "order_map ex_book 3 = Some 2" "order_map ex_book 2 = Some 1"
    by (simp_all add: ex_book_eq)
  have "\<exists>s'. cancel_order ex_book 3 = (True, s')
          \<and> asks s' = [(100, \<lparr>level_price = 100, total_quantity = 500, orders = [0, 1]\<rparr>)]"
    by (simp add: ex_book_eq eval_simps new_order_def remove_order_eq)
  then obtain s3 where c3: "cancel_order ex_book 3 = (True, s3)"
    and a3: "asks s3 = [(100, \<lparr>level_price = 100, total_quantity = 500, orders = [0, 1]\<rparr>)]"
    by (elim exE conjE)
  have "\<exists>s'. cancel_order ex_book 2 = (True, s')
          \<and> asks s' = [(100, \<lparr>level_price = 100, total_quantity = 200, orders = [0]\<rparr>),
                        (102, \<lparr>level_price = 102, total_quantity = 50, orders = [2]\<rparr>)]"
    by (simp add: ex_book_eq eval_simps new_order_def remove_order_eq)
  then obtain s2 where c2: "cancel_order ex_book 2 = (True, s2)"
    and a2: "asks s2 = [(100, \<lparr>level_price = 100, total_quantity = 200, orders = [0]\<rparr>),
                        (102, \<lparr>level_price = 102, total_quantity = 50, orders = [2]\<rparr>)]"
    by (elim exE conjE)
  from cancel_order_effect[OF ex_book_reachable, of 9 0] i
  have n: "cancel_order ex_book 9 = (False, ex_book)" by simp
  from cancel_order_effect[OF ex_book_reachable, of 3 2] i c3
  have e3: "order_status (heap s3 2) = CANCELLED" "2 \<notin> set (book_refs s3)"
    "order_map s3 3 = None" "cancel_order s3 3 = (False, s3)"
    by (auto simp: umap_erase_def)
  from cancel_order_effect[OF ex_book_reachable, of 2 1] i c2
  have e2: "order_status (heap s2 1) = CANCELLED"
    by auto
  from ex_book_reachable i n c3 a3 e3 c2 a2 e2 show ?thesis by simp
qed

section \<open>The claims\<close>

text \<open>
  Claim C1 (what a trade holds). On a reachable book, the trades that \<^verbatim>\<open>add_order\<close> or
  \<^verbatim>\<open>add_market_order\<close> produces are made one by one against the resting orders of the
  opposite ladder in price-time order (\<open>walk_order\<close>). Each trade has the price of the
  level its resting order rests in (the key of that level, which is also the resting
  order's own price, and not the incoming order's price), the quantity
  \<open>min(incoming.remaining, resting.remaining)\<close> as the two stand when the trade is made, and
  the ids by side: the incoming order's id in the field of its own side, the resting order's
  id in the other, the resting order being of the opposite side. The incoming order starts
  with its whole quantity and has the id \<open>next_order_id\<close>. All of this is \<open>priced_by_book\<close>.
\<close>

theorem trades_priced_by_resting_level:
  assumes "reachable s"
  shows "(add_order_run s p qty sd ty = Inr (oid, trades, s') \<longrightarrow>
            priced_by_book (heap s) sd oid qty (walk_order (opposite sd s)) trades)
       \<and> (add_market_order s qty sd = Inr (trades, s') \<longrightarrow>
            priced_by_book (heap s) sd (next_order_id s) qty (walk_order (opposite sd s)) trades)"
proof (intro conjI impI)
  assume r: "add_order_run s p qty sd ty = Inr (oid, trades, s')"
  show "priced_by_book (heap s) sd oid qty (walk_order (opposite sd s)) trades"
  proof (cases "valid_params p qty ty")
    case False
    with r show ?thesis by (simp add: add_order_run_rejected)
  next
    case True
    from add_order_run_accepted[OF reachable_book_inv[OF assms] True, of sd] obtain s2 trades2 where
      ml: "match_loop sd (with_new_order s p qty sd ty) (heap_top s) [] = Inr (s2, trades2)" and
      eq: "add_order_run s p qty sd ty =
         Inr (next_order_id s, trades2, update_statistics trades2 (after_match s s2 p sd ty))"
      by blast
    from accepted_trades_priced[OF reachable_book_inv[OF assms] ml] eq r show ?thesis by simp
  qed
next
  assume r: "add_market_order s qty sd = Inr (trades, s')"
  show "priced_by_book (heap s) sd (next_order_id s) qty (walk_order (opposite sd s)) trades"
  proof (cases "qty = 0")
    case True
    with r show ?thesis by (simp add: add_market_order_zero)
  next
    case False
    from add_market_order_accepted[OF reachable_book_inv[OF assms] False, of sd] obtain s2 trades2 where
      ml: "match_loop sd (with_new_order s 0 qty sd MARKET) (heap_top s) [] = Inr (s2, trades2)" and
      eq: "add_market_order s qty sd = Inr (trades2, update_statistics trades2 s2)"
      by blast
    from accepted_trades_priced[OF reachable_book_inv[OF assms] ml] eq r show ?thesis by simp
  qed
qed

theorem trades_priced_by_resting_level_witness:
  "reachable ex_book
   \<and> (case add_order_run ex_book 101 250 BUY LIMIT of
        Inl e \<Rightarrow> False
      | Inr (oid, trades, s') \<Rightarrow>
          oid = 4
          \<and> trades = [\<lparr>trade_id = 1, buy_order_id = 4, sell_order_id = 1,
                         trade_price = 100, trade_quantity = 200\<rparr>,
                       \<lparr>trade_id = 2, buy_order_id = 4, sell_order_id = 2,
                         trade_price = 100, trade_quantity = 50\<rparr>]
          \<and> priced_by_book (heap ex_book) BUY oid 250 (walk_order (opposite BUY ex_book)) trades)
   \<and> (case add_market_order ex_book 600 BUY of
        Inl e \<Rightarrow> False
      | Inr (trades, s') \<Rightarrow>
          trades = [\<lparr>trade_id = 1, buy_order_id = 4, sell_order_id = 1,
                       trade_price = 100, trade_quantity = 200\<rparr>,
                     \<lparr>trade_id = 2, buy_order_id = 4, sell_order_id = 2,
                       trade_price = 100, trade_quantity = 300\<rparr>,
                     \<lparr>trade_id = 3, buy_order_id = 4, sell_order_id = 3,
                       trade_price = 102, trade_quantity = 50\<rparr>]
          \<and> priced_by_book (heap ex_book) BUY 4 600 (walk_order (opposite BUY ex_book)) trades)"
proof -
  have "\<exists>s'. add_order_run ex_book 101 250 BUY LIMIT =
      Inr (4, [\<lparr>trade_id = 1, buy_order_id = 4, sell_order_id = 1,
                         trade_price = 100, trade_quantity = 200\<rparr>,
                       \<lparr>trade_id = 2, buy_order_id = 4, sell_order_id = 2,
                         trade_price = 100, trade_quantity = 50\<rparr>], s')"
    by (simp add: ex_book_eq eval_simps new_order_def)
  then obtain s1 where r1: "add_order_run ex_book 101 250 BUY LIMIT =
      Inr (4, [\<lparr>trade_id = 1, buy_order_id = 4, sell_order_id = 1,
                         trade_price = 100, trade_quantity = 200\<rparr>,
                       \<lparr>trade_id = 2, buy_order_id = 4, sell_order_id = 2,
                         trade_price = 100, trade_quantity = 50\<rparr>], s1)" ..
  have "\<exists>s'. add_market_order ex_book 600 BUY =
      Inr ([\<lparr>trade_id = 1, buy_order_id = 4, sell_order_id = 1,
                       trade_price = 100, trade_quantity = 200\<rparr>,
                     \<lparr>trade_id = 2, buy_order_id = 4, sell_order_id = 2,
                       trade_price = 100, trade_quantity = 300\<rparr>,
                     \<lparr>trade_id = 3, buy_order_id = 4, sell_order_id = 3,
                       trade_price = 102, trade_quantity = 50\<rparr>], s')"
    by (simp add: ex_book_eq eval_simps new_order_def)
  then obtain s2 where r2: "add_market_order ex_book 600 BUY =
      Inr ([\<lparr>trade_id = 1, buy_order_id = 4, sell_order_id = 1,
                       trade_price = 100, trade_quantity = 200\<rparr>,
                     \<lparr>trade_id = 2, buy_order_id = 4, sell_order_id = 2,
                       trade_price = 100, trade_quantity = 300\<rparr>,
                     \<lparr>trade_id = 3, buy_order_id = 4, sell_order_id = 3,
                       trade_price = 102, trade_quantity = 50\<rparr>], s2)" ..
  have n: "next_order_id ex_book = 4" by (simp add: ex_book_eq)
  from trades_priced_by_resting_level[OF ex_book_reachable, of 101 250 BUY LIMIT 4 _ s1] r1
  have p1: "priced_by_book (heap ex_book) BUY 4 250 (walk_order (opposite BUY ex_book))
     [\<lparr>trade_id = 1, buy_order_id = 4, sell_order_id = 1,
                         trade_price = 100, trade_quantity = 200\<rparr>,
                       \<lparr>trade_id = 2, buy_order_id = 4, sell_order_id = 2,
                         trade_price = 100, trade_quantity = 50\<rparr>]"
    by blast
  from trades_priced_by_resting_level[OF ex_book_reachable, of 101 600 BUY LIMIT 4 _ s2] r2 n
  have p2: "priced_by_book (heap ex_book) BUY 4 600 (walk_order (opposite BUY ex_book))
     [\<lparr>trade_id = 1, buy_order_id = 4, sell_order_id = 1,
                       trade_price = 100, trade_quantity = 200\<rparr>,
                     \<lparr>trade_id = 2, buy_order_id = 4, sell_order_id = 2,
                       trade_price = 100, trade_quantity = 300\<rparr>,
                     \<lparr>trade_id = 3, buy_order_id = 4, sell_order_id = 3,
                       trade_price = 102, trade_quantity = 50\<rparr>]"
    by simp
  from ex_book_reachable r1 r2 p1 p2 show ?thesis by simp
qed




text \<open>
  Claim C4 (aggregate consistency). After any calls on a new book, every level of either
  ladder has \<^verbatim>\<open>total_quantity_\<close> equal to the sum of the remaining quantities of the orders
  in its queue (\<open>aggregate_ok\<close>). The equation is kept by \<^verbatim>\<open>PriceLevel::add_order\<close>,
  \<^verbatim>\<open>remove_order\<close> and \<^verbatim>\<open>pop_front_order\<close>, and by one pass through the body of the matching
  loop, where the front order is filled through its pointer and \<^verbatim>\<open>update_quantity\<close> adjusts
  the aggregate in place (and then the order is popped if it is fully filled); there the
  front order is not a second time in the queue and the incoming order is not in it. The
  sum is a sum of \<^verbatim>\<open>uint64_t\<close>, as the aggregate is: as a number, the aggregate is the sum
  of the remaining quantities modulo \<open>2^64\<close>, and so the sum itself as long as the sum is
  below \<open>2^64\<close> (\<open>aggregate_is_sum\<close>). The bound is needed: \<^verbatim>\<open>total_quantity_ +=\<close> wraps
  (\<open>total_quantity_wraps_counterexample\<close>).
\<close>

theorem aggregate_consistency:
  "(\<exists>evs s. run cs OrderBook_ctor = Inr (evs, s)
       \<and> list_all (\<lambda>(k, lvl). aggregate_ok (heap s) lvl) (bids s @ asks s))
   \<and> (aggregate_ok h lvl \<longrightarrow> aggregate_ok h (level_add_order h ro lvl))
   \<and> (aggregate_ok h lvl \<longrightarrow> aggregate_ok h (snd (remove_order h oid lvl)))
   \<and> (aggregate_ok h lvl \<longrightarrow> aggregate_ok h (pop_front_order h lvl))
   \<and> (aggregate_ok (heap s0) lvl \<and> orders lvl = r # rest \<and> r \<notin> set rest
        \<and> incoming \<notin> set (orders lvl)
        \<and> match_front s0 incoming lvl tp r = Inr (s1, lvl1, t)
      \<longrightarrow> aggregate_ok (heap s1) lvl1)
   \<and> (aggregate_ok h lvl \<longrightarrow>
        unat (total_quantity lvl) = sum_list (remaining_quantities h (orders lvl)) mod 2 ^ 64)
   \<and> (aggregate_ok h lvl \<and> sum_list (remaining_quantities h (orders lvl)) < 2 ^ 64 \<longrightarrow>
        aggregate_is_sum h lvl)"
proof -
  from run_ctor_book_inv[of cs] obtain evs s
    where r: "run cs OrderBook_ctor = Inr (evs, s)" and b: "book_inv s" by blast
  from r book_inv_aggregate_ok[OF b] have
    "\<exists>evs s. run cs OrderBook_ctor = Inr (evs, s)
       \<and> list_all (\<lambda>(k, lvl). aggregate_ok (heap s) lvl) (bids s @ asks s)" by blast
  moreover have m: "aggregate_ok h lvl \<longrightarrow>
        unat (total_quantity lvl) = sum_list (remaining_quantities h (orders lvl)) mod 2 ^ 64"
    using level_sum_unat[of h "orders lvl"]
    by (simp add: aggregate_ok_def remaining_quantities_def)
  moreover from m have "aggregate_ok h lvl
        \<and> sum_list (remaining_quantities h (orders lvl)) < 2 ^ 64 \<longrightarrow> aggregate_is_sum h lvl"
    by (simp add: aggregate_is_sum_def)
  ultimately show ?thesis
    using aggregate_ok_add_order[of h lvl ro] aggregate_ok_remove_order[of h lvl oid]
      aggregate_ok_pop_front_order[of h lvl]
      aggregate_ok_match_front[of s0 lvl r rest incoming tp s1 lvl1 t]
    by blast
qed

theorem aggregate_consistency_witness:
  "(case run ex_trading OrderBook_ctor of
      Inl e \<Rightarrow> False
    | Inr (evs, s) \<Rightarrow> list_all (\<lambda>(k, lvl). aggregate_ok (heap s) lvl) (bids s @ asks s))
   \<and> aggregate_ok (heap ex_book) ex_level
   \<and> remaining_quantities (heap ex_book) (orders ex_level) = [200, 300]
   \<and> aggregate_is_sum (heap ex_book) ex_level
   \<and> level_add_order (heap ex_book) (Some 2) ex_level
       = \<lparr>level_price = 100, total_quantity = 550, orders = [0, 1, 2]\<rparr>
   \<and> aggregate_ok (heap ex_book) (level_add_order (heap ex_book) (Some 2) ex_level)
   \<and> snd (remove_order (heap ex_book) 1 ex_level)
       = \<lparr>level_price = 100, total_quantity = 300, orders = [1]\<rparr>
   \<and> aggregate_ok (heap ex_book) (snd (remove_order (heap ex_book) 1 ex_level))
   \<and> pop_front_order (heap ex_book) ex_level
       = \<lparr>level_price = 100, total_quantity = 300, orders = [1]\<rparr>
   \<and> aggregate_ok (heap ex_book) (pop_front_order (heap ex_book) ex_level)
   \<and> (case match_front ex_incoming 3 ex_level 100 0 of
        Inl e \<Rightarrow> False
      | Inr (s1, lvl1, t) \<Rightarrow>
          lvl1 = \<lparr>level_price = 100, total_quantity = 450, orders = [0, 1]\<rparr>
          \<and> aggregate_ok (heap s1) lvl1)"
proof -
  have r: "\<exists>evs s. run ex_trading OrderBook_ctor = Inr (evs, s)"
    by (simp add: ex_trading_def eval_simps new_order_def)
  have a: "aggregate_ok (heap ex_book) ex_level"
    by (simp add: aggregate_ok_def level_sum_def ex_level_def ex_book_eq new_order_def
        get_remaining_qty_def)
  have rq: "remaining_quantities (heap ex_book) (orders ex_level) = [200, 300]"
    by (simp add: remaining_quantities_def ex_level_def ex_book_eq new_order_def
        get_remaining_qty_def)
  have e1: "level_add_order (heap ex_book) (Some 2) ex_level
       = \<lparr>level_price = 100, total_quantity = 550, orders = [0, 1, 2]\<rparr>"
    by (simp add: ex_level_def ex_book_eq new_order_def eval_simps)
  have e2: "snd (remove_order (heap ex_book) 1 ex_level)
       = \<lparr>level_price = 100, total_quantity = 300, orders = [1]\<rparr>"
    by (simp add: ex_level_def ex_book_eq new_order_def eval_simps)
  have e3: "pop_front_order (heap ex_book) ex_level
       = \<lparr>level_price = 100, total_quantity = 300, orders = [1]\<rparr>"
    by (simp add: ex_level_def ex_book_eq new_order_def eval_simps)
  have "\<exists>s1 t. match_front ex_incoming 3 ex_level 100 0
       = Inr (s1, \<lparr>level_price = 100, total_quantity = 450, orders = [0, 1]\<rparr>, t)"
    by (simp add: ex_incoming_def with_new_order_def ex_level_def ex_book_eq new_order_def
        eval_simps del: One_nat_def)
  then obtain s1 t where e4: "match_front ex_incoming 3 ex_level 100 0
       = Inr (s1, \<lparr>level_price = 100, total_quantity = 450, orders = [0, 1]\<rparr>, t)"
    by (elim exE)
  have a0: "aggregate_ok (heap ex_incoming) ex_level"
    by (simp add: aggregate_ok_def level_sum_def ex_level_def ex_incoming_def
        with_new_order_def ex_book_eq new_order_def get_remaining_qty_def store_def)
  have o: "orders ex_level = 0 # [1]" "(0::nat) \<notin> set [1]" "3 \<notin> set (orders ex_level)"
    by (simp_all add: ex_level_def)
  from aggregate_consistency[of ex_trading "heap ex_book" ex_level "Some 2" 1 ex_incoming
      0 "[1]" 3 100 s1 "\<lparr>level_price = 100, total_quantity = 450, orders = [0, 1]\<rparr>" t]
    r a rq e1 e2 e3 e4 a0 o
  show ?thesis
    apply (elim exE conjE)
    apply (simp only: )
    apply simp
    done
qed

text \<open>
  Two calls on a new book, each a sell of \<open>2^63\<close> shares at 100: both orders rest in the level
  at 100, each with \<open>2^63\<close> shares left, and the level's \<^verbatim>\<open>total_quantity_\<close> is 0.
\<close>

theorem total_quantity_wraps_counterexample:
  "run agg_wrap_calls OrderBook_ctor = Inr (run_log agg_wrap_calls, run_book agg_wrap_calls)
   \<and> asks (run_book agg_wrap_calls)
       = [(100, \<lparr>level_price = 100, total_quantity = 0, orders = [0, 1]\<rparr>)]
   \<and> remaining_quantities (heap (run_book agg_wrap_calls)) [0, 1] = [2 ^ 63, 2 ^ 63]
   \<and> \<not> aggregate_is_sum (heap (run_book agg_wrap_calls))
         \<lparr>level_price = 100, total_quantity = 0, orders = [0, 1]\<rparr>"
proof -
  have "\<exists>evs s. run agg_wrap_calls OrderBook_ctor = Inr (evs, s)
          \<and> asks s = [(100, \<lparr>level_price = 100, total_quantity = 0, orders = [0, 1]\<rparr>)]
          \<and> remaining_quantities (heap s) [0, 1] = [2 ^ 63, 2 ^ 63]"
    by (simp add: agg_wrap_calls_def eval_simps new_order_def remaining_quantities_def)
  then obtain evs s where r: "run agg_wrap_calls OrderBook_ctor = Inr (evs, s)"
    and q: "asks s = [(100, \<lparr>level_price = 100, total_quantity = 0, orders = [0, 1]\<rparr>)]"
      "remaining_quantities (heap s) [0, 1] = [2 ^ 63, 2 ^ 63]"
    by (elim exE conjE)
  from r have e: "run_log agg_wrap_calls = evs" "run_book agg_wrap_calls = s"
    by (simp_all add: run_log_def run_book_def)
  from r q show ?thesis unfolding e aggregate_is_sum_def by simp
qed

text \<open>
  Claim C6 (rejection sentinel). On a reachable book, \<^verbatim>\<open>add_order\<close> with \<open>quantity = 0\<close>, or
  \<open>price < 0\<close>, or type LIMIT and \<open>price \<le> 0\<close> returns 0, throws nothing, makes no trade and
  leaves the whole book as it was, the store of orders included: no \<^verbatim>\<open>Order\<close> is constructed
  (the constructor would throw \<^verbatim>\<open>invalid_argument\<close> on just these parameters). With other
  parameters it throws nothing, returns \<^verbatim>\<open>next_order_id_\<close>, constructs one order and so
  changes the book. Hence it returns 0 and leaves the book unchanged exactly when the
  parameters are invalid. After any calls on a new book of which fewer than \<open>2^64 - 1\<close>
  passed validation, the id an accepted \<^verbatim>\<open>add_order\<close> returns is at least 1. The bound is
  needed: after \<open>2^64 - 1\<close> accepted calls \<^verbatim>\<open>next_order_id_\<close> is 0, and the next accepted
  order gets the id 0 (\<open>accepted_order_returns_zero_counterexample\<close>).
\<close>

theorem rejection_sentinel:
  assumes "reachable s"
  shows "(qty = 0 \<or> p < 0 \<or> (ty = LIMIT \<and> p \<le> 0) \<longrightarrow>
            add_order_run s p qty sd ty = Inr (0, [], s) \<and> add_order s p qty sd ty = Inr (0, s)
            \<and> Order_ctor oid p qty sd ty = Inl invalid_argument)
       \<and> (\<not> (qty = 0 \<or> p < 0 \<or> (ty = LIMIT \<and> p \<le> 0)) \<longrightarrow>
            (\<exists>trades s'. add_order_run s p qty sd ty = Inr (next_order_id s, trades, s')
               \<and> add_order s p qty sd ty = Inr (next_order_id s, s') \<and> s' \<noteq> s
               \<and> length (issued_order_ids s') = length (issued_order_ids s) + 1))
       \<and> ((add_order s p qty sd ty = Inr (0, s)) = (qty = 0 \<or> p < 0 \<or> (ty = LIMIT \<and> p \<le> 0)))
       \<and> (\<exists>evs sf. run cs OrderBook_ctor = Inr (evs, sf)
            \<and> next_order_id sf = 1 + of_nat (length (filter accepts cs))
            \<and> (qty = 0 \<or> p < 0 \<or> (ty = LIMIT \<and> p \<le> 0)
               \<or> (\<exists>trades s'. add_order_run sf p qty sd ty = Inr (next_order_id sf, trades, s')
                    \<and> (length (filter accepts cs) < 2 ^ 64 - 1 \<longrightarrow> 1 \<le> next_order_id sf))))"
proof -
  have vp: "valid_params p qty ty = (\<not> (qty = 0 \<or> p < 0 \<or> (ty = LIMIT \<and> p \<le> 0)))"
    by (auto simp: valid_params_def)
  have a: "\<not> valid_params p qty ty \<longrightarrow>
            add_order_run s p qty sd ty = Inr (0, [], s) \<and> add_order s p qty sd ty = Inr (0, s)
            \<and> Order_ctor oid p qty sd ty = Inl invalid_argument"
    by (simp add: add_order_run_rejected add_order_def Order_ctor_invalid)
  have b: "valid_params p qty ty \<longrightarrow>
            (\<exists>trades s'. add_order_run s p qty sd ty = Inr (next_order_id s, trades, s')
               \<and> add_order s p qty sd ty = Inr (next_order_id s, s') \<and> s' \<noteq> s
               \<and> length (issued_order_ids s') = length (issued_order_ids s) + 1)"
  proof
    assume v: "valid_params p qty ty"
    from add_order_run_valid[OF reachable_book_inv[OF assms] v, of sd] obtain trades s' where
      r: "add_order_run s p qty sd ty = Inr (next_order_id s, trades, s')"
      and h: "heap_top s' = heap_top s + 1" "s' \<noteq> s" by blast
    from r have "add_order s p qty sd ty = Inr (next_order_id s, s')"
      by (simp add: add_order_def)
    with r h show "\<exists>trades s'. add_order_run s p qty sd ty = Inr (next_order_id s, trades, s')
               \<and> add_order s p qty sd ty = Inr (next_order_id s, s') \<and> s' \<noteq> s
               \<and> length (issued_order_ids s') = length (issued_order_ids s) + 1"
      by (intro exI[of _ trades] exI[of _ s']) simp
  qed
  have c: "(add_order s p qty sd ty = Inr (0, s)) = (\<not> valid_params p qty ty)"
    using a b by auto
  obtain evs sf where r: "run cs OrderBook_ctor = Inr (evs, sf)" and bf: "book_inv sf"
    and n: "heap_top sf = length (filter accepts cs)"
    "next_order_id sf = 1 + of_nat (heap_top sf)"
    by (rule run_ctor_issues[of cs])
  have ge: "length (filter accepts cs) < 2 ^ 64 - 1 \<longrightarrow> 1 \<le> next_order_id sf"
    using word_one_plus_ge[of "length (filter accepts cs)"] n by simp
  have d: "\<not> valid_params p qty ty
           \<or> (\<exists>trades s'. add_order_run sf p qty sd ty = Inr (next_order_id sf, trades, s')
                \<and> (length (filter accepts cs) < 2 ^ 64 - 1 \<longrightarrow> 1 \<le> next_order_id sf))"
    using add_order_run_valid[OF bf, of p qty ty sd] ge by blast
  have "\<exists>evs sf. run cs OrderBook_ctor = Inr (evs, sf)
            \<and> next_order_id sf = 1 + of_nat (length (filter accepts cs))
            \<and> (\<not> valid_params p qty ty
               \<or> (\<exists>trades s'. add_order_run sf p qty sd ty = Inr (next_order_id sf, trades, s')
                    \<and> (length (filter accepts cs) < 2 ^ 64 - 1 \<longrightarrow> 1 \<le> next_order_id sf)))"
    using r n d by (intro exI[of _ evs] exI[of _ sf]) simp
  with a b c show ?thesis
    unfolding vp not_not
    apply (intro conjI)
       apply assumption+
    apply (simp only: disj_assoc)
    done
qed

theorem rejection_sentinel_witness:
  "reachable ex_book
   \<and> add_order ex_book (- 1) 5 BUY MARKET = Inr (0, ex_book)
   \<and> Order_ctor 9 (- 1) 5 BUY MARKET = Inl invalid_argument
   \<and> add_order ex_book 100 0 BUY LIMIT = Inr (0, ex_book)
   \<and> add_order ex_book 0 5 BUY LIMIT = Inr (0, ex_book)
   \<and> (case add_order ex_book 101 250 BUY LIMIT of
        Inl e \<Rightarrow> False
      | Inr (oid, s') \<Rightarrow> oid = 4 \<and> s' \<noteq> ex_book \<and> length (issued_order_ids s') = 4)
   \<and> (case run ex_resting OrderBook_ctor of
        Inl e \<Rightarrow> False
      | Inr (evs, sf) \<Rightarrow>
          next_order_id sf = 4 \<and> 1 \<le> next_order_id sf
          \<and> (case add_order sf 101 250 BUY LIMIT of Inl e \<Rightarrow> False | Inr (oid, s') \<Rightarrow> oid = 4))"
proof -
  have e: "next_order_id ex_book = 4" "heap_top ex_book = 3"
    by (simp_all add: ex_book_eq)
  have "\<exists>evs sf. run ex_resting OrderBook_ctor = Inr (evs, sf)"
    by (simp add: ex_resting_def eval_simps)
  then obtain evs0 sf0 where r: "run ex_resting OrderBook_ctor = Inr (evs0, sf0)"
    by (elim exE)
  have n: "length (filter accepts ex_resting) = 3" "(3::nat) < 2 ^ 64 - 1"
    by (simp_all add: ex_resting_def)
  note v = rejection_sentinel[OF ex_book_reachable, of 250 101 LIMIT BUY 9 ex_resting]
  from v e obtain s1 where a1: "add_order ex_book 101 250 BUY LIMIT = Inr (4, s1)"
    and a2: "s1 \<noteq> ex_book" "length (issued_order_ids s1) = 4"
    by auto
  from v r n have s: "next_order_id sf0 = 4" "1 \<le> next_order_id sf0"
    by auto
  from v r obtain ts2 s2 where "add_order_run sf0 101 250 BUY LIMIT = Inr (next_order_id sf0, ts2, s2)"
    by auto
  with s have a3: "add_order sf0 101 250 BUY LIMIT = Inr (4, s2)"
    by (simp add: add_order_def)
  from rejection_sentinel[OF ex_book_reachable, of 5 "- 1" MARKET BUY 9 ex_resting]
    rejection_sentinel[OF ex_book_reachable, of 0 100 LIMIT BUY 9 ex_resting]
    rejection_sentinel[OF ex_book_reachable, of 5 0 LIMIT BUY 9 ex_resting]
  have rej: "add_order ex_book (- 1) 5 BUY MARKET = Inr (0, ex_book)"
    "Order_ctor 9 (- 1) 5 BUY MARKET = Inl invalid_argument"
    "add_order ex_book 100 0 BUY LIMIT = Inr (0, ex_book)"
    "add_order ex_book 0 5 BUY LIMIT = Inr (0, ex_book)"
    by simp_all
  from rej a1 a2 r s a3 ex_book_reachable show ?thesis by simp
qed

text \<open>
  After \<open>2^64 - 1\<close> accepted calls of \<^verbatim>\<open>add_order\<close> on a new book, a call with valid parameters
  is accepted (an order is constructed, the book changes) and returns 0.
\<close>

theorem accepted_order_returns_zero_counterexample:
  "\<exists>evs sf. run (replicate (2 ^ 64 - 1) (AddOrder 100 1 BUY LIMIT)) OrderBook_ctor = Inr (evs, sf)
     \<and> (\<exists>s'. add_order sf 100 1 BUY LIMIT = Inr (0, s') \<and> s' \<noteq> sf
           \<and> length (issued_order_ids s') = 2 ^ 64)"
proof -
  let ?cs = "replicate (2 ^ 64 - 1) (AddOrder 100 1 BUY LIMIT)"
  obtain evs sf where r: "run ?cs OrderBook_ctor = Inr (evs, sf)" and bf: "book_inv sf"
    and n: "heap_top sf = length (filter accepts ?cs)"
    "next_order_id sf = 1 + of_nat (heap_top sf)"
    by (rule run_ctor_issues[of ?cs])
  from n have h: "heap_top sf = 2 ^ 64 - 1" by simp
  with n have z: "next_order_id sf = 0" by simp
  have vp: "valid_params 100 1 LIMIT" by (simp add: valid_params_def)
  from add_order_run_valid[OF bf vp, of BUY] z obtain trades s' where
    a: "add_order_run sf 100 1 BUY LIMIT = Inr (0, trades, s')"
    and b: "heap_top s' = heap_top sf + 1" "s' \<noteq> sf" by auto
  from a have "add_order sf 100 1 BUY LIMIT = Inr (0, s')" by (simp add: add_order_def)
  moreover from b h have "length (issued_order_ids s') = 2 ^ 64" by simp
  ultimately show ?thesis using r b by blast
qed

text \<open>
  Claim C8 (clear and the counters). \<^verbatim>\<open>clear\<close> empties both ladders and the index and sets
  \<^verbatim>\<open>total_trades_\<close> and \<^verbatim>\<open>total_volume_\<close> to 0; it leaves \<^verbatim>\<open>next_order_id_\<close> and
  \<^verbatim>\<open>next_trade_id_\<close> as they are, and the ids of the orders constructed so far. After any
  calls on a new book, calls of \<^verbatim>\<open>clear\<close> among them, the order ids issued are strictly
  increasing in the order of issue provided fewer than \<open>2^64\<close> of them were issued, and so
  are the trade ids provided fewer than \<open>2^64\<close> trades were made. The bound is needed: the
  counters are \<^verbatim>\<open>uint64_t\<close>, and the id issued after \<open>2^64 - 1\<close> is 0
  (\<open>ids_wrap_counterexample\<close>).
\<close>

theorem clear_keeps_counters:
  "bids (clear s) = [] \<and> asks (clear s) = [] \<and> order_map (clear s) = (\<lambda>oid. None)
   \<and> total_trades (clear s) = 0 \<and> total_volume (clear s) = 0
   \<and> next_order_id (clear s) = next_order_id s \<and> next_trade_id (clear s) = next_trade_id s
   \<and> issued_order_ids (clear s) = issued_order_ids s
   \<and> (\<exists>evs sf. run cs OrderBook_ctor = Inr (evs, sf)
        \<and> (length (issued_order_ids sf) < 2 ^ 64 \<longrightarrow> sorted_wrt (<) (issued_order_ids sf))
        \<and> (length (all_trades evs) < 2 ^ 64 \<longrightarrow>
             sorted_wrt (<) (map trade_id (all_trades evs))))"
proof -
  obtain evs sf where r: "run cs OrderBook_ctor = Inr (evs, sf)"
    and f: "consecutive_from 1 (issued_order_ids sf)"
    "consecutive_from 1 (map trade_id (all_trades evs))"
    by (rule run_ctor_issues[of cs])
  have "length (issued_order_ids sf) < 2 ^ 64 \<longrightarrow> sorted_wrt (<) (issued_order_ids sf)"
    using consecutive_from_increasing[OF f(1)] by blast
  moreover have "length (all_trades evs) < 2 ^ 64 \<longrightarrow>
             sorted_wrt (<) (map trade_id (all_trades evs))"
    using consecutive_from_increasing[OF f(2)] by simp
  ultimately have "\<exists>evs sf. run cs OrderBook_ctor = Inr (evs, sf)
        \<and> (length (issued_order_ids sf) < 2 ^ 64 \<longrightarrow> sorted_wrt (<) (issued_order_ids sf))
        \<and> (length (all_trades evs) < 2 ^ 64 \<longrightarrow>
             sorted_wrt (<) (map trade_id (all_trades evs)))"
    using r by blast
  then show ?thesis
    by (simp add: clear_def issued_order_ids_def)
qed

theorem clear_keeps_counters_witness:
  "(case run ex_cleared OrderBook_ctor of
      Inl e \<Rightarrow> False
    | Inr (evs, sf) \<Rightarrow>
        length (issued_order_ids sf) = 4 \<and> sorted_wrt (<) (issued_order_ids sf)
        \<and> length (all_trades evs) = 2 \<and> sorted_wrt (<) (map trade_id (all_trades evs))
        \<and> bids sf = [] \<and> total_trades sf = 1 \<and> total_volume sf = 5
        \<and> next_order_id sf = 5 \<and> next_trade_id sf = 3)"
proof -
  have "\<exists>evs sf. run ex_cleared OrderBook_ctor = Inr (evs, sf)
          \<and> length (all_trades evs) = 2 \<and> heap_top sf = 4
          \<and> bids sf = [] \<and> total_trades sf = 1 \<and> total_volume sf = 5
          \<and> next_order_id sf = 5 \<and> next_trade_id sf = 3"
    by (simp add: ex_cleared_def eval_simps new_order_def del: One_nat_def)
  then obtain evs0 sf0 where r: "run ex_cleared OrderBook_ctor = Inr (evs0, sf0)"
    and q: "length (all_trades evs0) = 2" "heap_top sf0 = 4"
      "bids sf0 = []" "total_trades sf0 = 1" "total_volume sf0 = 5"
      "next_order_id sf0 = 5" "next_trade_id sf0 = 3"
    by (elim exE conjE)
  from clear_keeps_counters[of OrderBook_ctor ex_cleared] r q
  show ?thesis by auto
qed

text \<open>
  After \<open>2^64\<close> accepted calls of \<^verbatim>\<open>add_order\<close> on a new book the ids issued are not
  increasing: the last but one is \<open>2^64 - 1\<close> and the last is 0.
\<close>

theorem ids_wrap_counterexample:
  "\<exists>evs sf. run (replicate (2 ^ 64) (AddOrder 100 1 BUY LIMIT)) OrderBook_ctor = Inr (evs, sf)
     \<and> length (issued_order_ids sf) = 2 ^ 64
     \<and> issued_order_ids sf ! (2 ^ 64 - 2) = 2 ^ 64 - 1
     \<and> issued_order_ids sf ! (2 ^ 64 - 1) = 0
     \<and> \<not> sorted_wrt (<) (issued_order_ids sf)"
proof -
  let ?cs = "replicate (2 ^ 64) (AddOrder 100 1 BUY LIMIT)"
  obtain evs sf where r: "run ?cs OrderBook_ctor = Inr (evs, sf)"
    and n: "heap_top sf = length (filter accepts ?cs)"
    and c: "consecutive_from 1 (issued_order_ids sf)"
    by (rule run_ctor_issues[of ?cs])
  from n have len: "length (issued_order_ids sf) = 2 ^ 64" by simp
  have a: "issued_order_ids sf ! (2 ^ 64 - 2) = 2 ^ 64 - 1"
    using consecutive_from_nth[OF c, of "2 ^ 64 - 2"] len by simp
  have b: "issued_order_ids sf ! (2 ^ 64 - 1) = 0"
    using consecutive_from_nth[OF c, of "2 ^ 64 - 1"] len by simp
  have "\<not> sorted_wrt (<) (issued_order_ids sf)"
  proof
    assume "sorted_wrt (<) (issued_order_ids sf)"
    from sorted_wrt_nth_less[OF this, of "2 ^ 64 - 2" "2 ^ 64 - 1"] len a b
    show False by simp
  qed
  with r len a b show ?thesis by blast
qed







end
